theory Spec2Isabelle
  imports Complex_Main "HOL-Library.AList"
begin

section \<open>Data model\<close>

text \<open>
  The library system is modelled by explicit state passing. A Python \<open>dict\<close> is an
  association list in insertion order (\<open>map_of\<close> looks a key up, \<open>AList.update\<close>
  assigns, \<open>AList.delete\<close> pops); a Python \<open>set\<close> that is only tested for membership is
  a HOL set, and one that the code iterates over (the adjacency sets of the graph) is a
  list in iteration order. Python integers are \<open>int\<close>. An exception is a value of type
  \<open>error\<close>; an operation returns its outcome together with the state it leaves behind.
  Every \<open>Book\<close> and \<open>User\<close> object is taken to be owned by exactly one dictionary entry.
\<close>

datatype error = ValueError | IndexError | KeyError | AttributeError

subsection \<open>book.py\<close>

text \<open>Field \<open>available_copies\<close> is the attribute \<open>_available_copies\<close>, which the
  property of the same name (without underscore) reads.\<close>

record book =
  item_id :: string
  title :: string
  author :: string
  genre :: string
  total_copies :: int
  available_copies :: int
  borrow_count :: int

text \<open>\<open>Book.__post_init__\<close>, run by the constructor on the supplied fields.\<close>

definition book_post_init :: "book \<Rightarrow> error + book" where
  "book_post_init b =
     (if item_id b = [] \<or> title b = [] \<or> author b = [] then Inl ValueError
      else if total_copies b < 0 then Inl ValueError
      else let b' = (if available_copies b < 0 \<or> available_copies b > total_copies b
                     then b\<lparr>available_copies := total_copies b\<rparr> else b)
           in if genre b' = [] then Inl ValueError else Inr b')"

definition can_borrow :: "book \<Rightarrow> bool" where
  "can_borrow b = (available_copies b > 0)"

definition borrow_one :: "book \<Rightarrow> error + book" where
  "borrow_one b =
     (if available_copies b \<le> 0 then Inl ValueError
      else Inr (b\<lparr>available_copies := available_copies b - 1,
                   borrow_count := borrow_count b + 1\<rparr>))"

definition return_one :: "book \<Rightarrow> error + book" where
  "return_one b =
     (if available_copies b \<ge> total_copies b then Inl ValueError
      else Inr (b\<lparr>available_copies := available_copies b + 1\<rparr>))"

subsection \<open>user.py\<close>

record user =
  user_id :: string
  name :: string
  interests :: "string set"
  borrowed_books :: "string set"
  history :: "string list"

definition borrow :: "user \<Rightarrow> string \<Rightarrow> user" where
  "borrow u bid =
     u\<lparr>borrowed_books := insert bid (borrowed_books u),
       history := history u @ [bid]\<rparr>"

definition user_return_book :: "user \<Rightarrow> string \<Rightarrow> user" where
  "user_return_book u bid = u\<lparr>borrowed_books := borrowed_books u - {bid}\<rparr>"

subsection \<open>data\_structures.py: LinkedListQueue\<close>

text \<open>The chain of nodes from \<open>_head\<close> is the list \<open>chain\<close> (\<open>_tail\<close> is its last
  node); \<open>count\<close> is the field \<open>_size\<close>.\<close>

record 'a linked_list_queue =
  chain :: "'a list"
  count :: int

definition new_queue :: "'a linked_list_queue" where
  "new_queue = \<lparr>chain = [], count = 0\<rparr>"

definition enqueue :: "'a linked_list_queue \<Rightarrow> 'a \<Rightarrow> 'a linked_list_queue" where
  "enqueue q v = \<lparr>chain = chain q @ [v], count = count q + 1\<rparr>"

definition dequeue :: "'a linked_list_queue \<Rightarrow> error + ('a \<times> 'a linked_list_queue)" where
  "dequeue q =
     (case chain q of
        [] \<Rightarrow> Inl IndexError
      | v # rest \<Rightarrow> Inr (v, \<lparr>chain = rest, count = count q - 1\<rparr>))"

definition queue_bool :: "'a linked_list_queue \<Rightarrow> bool" where
  "queue_bool q = (count q > 0)"

text \<open>The representation invariant of the class: \<open>_size\<close> counts the nodes.\<close>

definition queue_ok :: "'a linked_list_queue \<Rightarrow> bool" where
  "queue_ok q = (count q = int (length (chain q)))"

subsection \<open>data\_structures.py: Graph\<close>

type_synonym graph = "(string \<times> string list) list"

definition add_node :: "graph \<Rightarrow> string \<Rightarrow> graph" where
  "add_node g node = (case map_of g node of None \<Rightarrow> g @ [(node, [])] | Some _ \<Rightarrow> g)"

text \<open>\<open>s.add(x)\<close> on an adjacency set. A Python set iterates in hash order; the place
  that the new element takes in the list is one such order, and no theorem on \<open>bfs\<close>
  depends on it: they are stated for adjacency lists in any order.\<close>

definition set_add :: "string \<Rightarrow> string list \<Rightarrow> string list" where
  "set_add x s = (if x \<in> set s then s else s @ [x])"

text \<open>\<open>self._adj[a].add(b)\<close>; in \<open>add_edge\<close> the key is present, \<open>add_node\<close> having
  just run.\<close>

definition adj_add :: "graph \<Rightarrow> string \<Rightarrow> string \<Rightarrow> graph" where
  "adj_add g a b = AList.map_entry a (set_add b) g"

definition add_edge :: "graph \<Rightarrow> string \<Rightarrow> string \<Rightarrow> graph" where
  "add_edge g a b =
     (if a = b then g
      else adj_add (adj_add (add_node (add_node g a) b) a b) b a)"

definition neighbors :: "graph \<Rightarrow> string \<Rightarrow> string list" where
  "neighbors g node = (case map_of g node of None \<Rightarrow> [] | Some s \<Rightarrow> s)"

definition contains :: "graph \<Rightarrow> string \<Rightarrow> bool" where
  "contains g node = (map_of g node \<noteq> None)"

subsection \<open>library.py\<close>

record library =
  books :: "(string \<times> book) list"
  users :: "(string \<times> user) list"
  borrow_requests :: "(string \<times> string) linked_list_queue"
  user_book_graph :: graph

definition new_library :: library where
  "new_library = \<lparr>books = [], users = [], borrow_requests = new_queue, user_book_graph = []\<rparr>"

definition user_node :: "string \<Rightarrow> string" where
  "user_node uid = ''user:'' @ uid"

definition book_node :: "string \<Rightarrow> string" where
  "book_node bid = ''book:'' @ bid"

definition add_book :: "library \<Rightarrow> book \<Rightarrow> library" where
  "add_book s b =
     (case map_of (books s) (item_id b) of
        Some existing \<Rightarrow>
          s\<lparr>books := AList.update (item_id b)
                (existing\<lparr>total_copies := total_copies existing + total_copies b,
                          available_copies := available_copies existing + available_copies b\<rparr>)
                (books s)\<rparr>
      | None \<Rightarrow>
          s\<lparr>books := AList.update (item_id b) b (books s),
            user_book_graph := add_node (user_book_graph s) (book_node (item_id b))\<rparr>)"

definition remove_book :: "library \<Rightarrow> string \<Rightarrow> bool \<times> library" where
  "remove_book s bid =
     (map_of (books s) bid \<noteq> None, s\<lparr>books := AList.delete bid (books s)\<rparr>)"

definition add_user :: "library \<Rightarrow> user \<Rightarrow> library" where
  "add_user s u =
     (if map_of (users s) (user_id u) \<noteq> None then s
      else s\<lparr>users := AList.update (user_id u) u (users s),
             user_book_graph := add_node (user_book_graph s) (user_node (user_id u))\<rparr>)"

definition enqueue_borrow_request :: "library \<Rightarrow> string \<Rightarrow> string \<Rightarrow> library" where
  "enqueue_borrow_request s uid bid =
     s\<lparr>borrow_requests := enqueue (borrow_requests s) (uid, bid)\<rparr>"

definition borrow_book :: "library \<Rightarrow> string \<Rightarrow> string \<Rightarrow> (error + bool) \<times> library" where
  "borrow_book s uid bid =
     (case map_of (users s) uid of
        None \<Rightarrow> (Inr False, s)
      | Some u \<Rightarrow>
         (case map_of (books s) bid of
            None \<Rightarrow> (Inr False, s)
          | Some b \<Rightarrow>
             if \<not> can_borrow b then (Inr False, s)
             else (case borrow_one b of
                     Inl e \<Rightarrow> (Inl e, s)
                   | Inr b' \<Rightarrow>
                       (Inr True,
                        s\<lparr>books := AList.update bid b' (books s),
                          users := AList.update uid (borrow u bid) (users s),
                          user_book_graph :=
                            add_edge (user_book_graph s) (user_node uid) (book_node bid)\<rparr>))))"

definition return_book :: "library \<Rightarrow> string \<Rightarrow> string \<Rightarrow> (error + bool) \<times> library" where
  "return_book s uid bid =
     (case map_of (users s) uid of
        None \<Rightarrow> (Inr False, s)
      | Some u \<Rightarrow>
         (case map_of (books s) bid of
            None \<Rightarrow> (Inr False, s)
          | Some b \<Rightarrow>
             if bid \<notin> borrowed_books u then (Inr False, s)
             else (case return_one b of
                     Inl e \<Rightarrow> (Inl e, s)
                   | Inr b' \<Rightarrow>
                       (Inr True,
                        s\<lparr>books := AList.update bid b' (books s),
                          users := AList.update uid (user_return_book u bid) (users s)\<rparr>))))"

definition process_next_borrow :: "library \<Rightarrow> (error + bool) \<times> library" where
  "process_next_borrow s =
     (if \<not> queue_bool (borrow_requests s) then (Inr False, s)
      else (case dequeue (borrow_requests s) of
              Inl e \<Rightarrow> (Inl e, s)
            | Inr ((uid, bid), q') \<Rightarrow> borrow_book (s\<lparr>borrow_requests := q'\<rparr>) uid bid))"

subsection \<open>library.py: update\_book\<close>

text \<open>
  \<open>update_book(book_id, **updates)\<close> runs \<open>setattr(book, key, value)\<close> for every key with
  \<open>hasattr(book, key)\<close>. A keyword argument is one of: a dataclass field with a value of
  the field's type (assigned as it is); the name \<open>available_copies\<close>, a property without
  a setter, so that \<open>hasattr\<close> holds and \<open>setattr\<close> raises \<open>AttributeError\<close>; or a name
  that is no attribute of \<open>Book\<close> (skipped). Method names and ill-typed values are not
  covered. The loop mutates the stored book, so the keys before a raising one stay set.
\<close>

datatype kwarg =
    Kw_item_id string
  | Kw_title string
  | Kw_author string
  | Kw_genre string
  | Kw_total_copies int
  | Kw_available_copies_field int
  | Kw_borrow_count int
  | Kw_available_copies_property int
  | Kw_no_attribute string

text \<open>The Python name of the keyword; the keys of \<open>updates\<close> are distinct.\<close>

fun kw_name :: "kwarg \<Rightarrow> string" where
  "kw_name (Kw_item_id _) = ''item_id''"
| "kw_name (Kw_title _) = ''title''"
| "kw_name (Kw_author _) = ''author''"
| "kw_name (Kw_genre _) = ''genre''"
| "kw_name (Kw_total_copies _) = ''total_copies''"
| "kw_name (Kw_available_copies_field _) = ''_available_copies''"
| "kw_name (Kw_borrow_count _) = ''borrow_count''"
| "kw_name (Kw_available_copies_property _) = ''available_copies''"
| "kw_name (Kw_no_attribute k) = k"

fun set_kwarg :: "book \<Rightarrow> kwarg \<Rightarrow> error + book" where
  "set_kwarg b (Kw_item_id v) = Inr (b\<lparr>item_id := v\<rparr>)"
| "set_kwarg b (Kw_title v) = Inr (b\<lparr>title := v\<rparr>)"
| "set_kwarg b (Kw_author v) = Inr (b\<lparr>author := v\<rparr>)"
| "set_kwarg b (Kw_genre v) = Inr (b\<lparr>genre := v\<rparr>)"
| "set_kwarg b (Kw_total_copies v) = Inr (b\<lparr>total_copies := v\<rparr>)"
| "set_kwarg b (Kw_available_copies_field v) = Inr (b\<lparr>available_copies := v\<rparr>)"
| "set_kwarg b (Kw_borrow_count v) = Inr (b\<lparr>borrow_count := v\<rparr>)"
| "set_kwarg b (Kw_available_copies_property v) = Inl AttributeError"
| "set_kwarg b (Kw_no_attribute k) = Inr b"

fun update_loop :: "book \<Rightarrow> kwarg list \<Rightarrow> error option \<times> book" where
  "update_loop b [] = (None, b)"
| "update_loop b (k # ks) =
     (case set_kwarg b k of Inl e \<Rightarrow> (Some e, b) | Inr b' \<Rightarrow> update_loop b' ks)"

definition update_book :: "library \<Rightarrow> string \<Rightarrow> kwarg list \<Rightarrow> (error + bool) \<times> library" where
  "update_book s bid updates =
     (case map_of (books s) bid of
        None \<Rightarrow> (Inr False, s)
      | Some b \<Rightarrow>
         (case update_loop b updates of
            (None, b') \<Rightarrow> (Inr True, s\<lparr>books := AList.update bid b' (books s)\<rparr>)
          | (Some e, b') \<Rightarrow> (Inl e, s\<lparr>books := AList.update bid b' (books s)\<rparr>)))"

text \<open>The keywords that \<open>setattr\<close> accepts: all but the read-only property.\<close>

fun settable :: "kwarg \<Rightarrow> bool" where
  "settable (Kw_available_copies_property _) = False"
| "settable _ = True"

subsection \<open>Sequences of calls\<close>

text \<open>A call of a public operation of \<open>Library\<close>; \<open>exec\<close> gives the state the call leaves,
  whether it returned or raised, and \<open>run\<close> makes the calls of a list in order.\<close>

datatype op =
    AddBook book
  | RemoveBook string
  | UpdateBook string "kwarg list"
  | AddUser user
  | BorrowBook string string
  | ReturnBook string string
  | EnqueueBorrowRequest string string
  | ProcessNextBorrow

fun exec :: "library \<Rightarrow> op \<Rightarrow> library" where
  "exec s (AddBook b) = add_book s b"
| "exec s (RemoveBook bid) = snd (remove_book s bid)"
| "exec s (UpdateBook bid updates) = snd (update_book s bid updates)"
| "exec s (AddUser u) = add_user s u"
| "exec s (BorrowBook uid bid) = snd (borrow_book s uid bid)"
| "exec s (ReturnBook uid bid) = snd (return_book s uid bid)"
| "exec s (EnqueueBorrowRequest uid bid) = enqueue_borrow_request s uid bid"
| "exec s ProcessNextBorrow = snd (process_next_borrow s)"

definition run :: "library \<Rightarrow> op list \<Rightarrow> library" where
  "run s ops = foldl exec s ops"

fun is_borrow_or_return :: "op \<Rightarrow> bool" where
  "is_borrow_or_return (BorrowBook _ _) = True"
| "is_borrow_or_return (ReturnBook _ _) = True"
| "is_borrow_or_return _ = False"

text \<open>The invariant of the data model on the copy counts of a book.\<close>

definition copies_ok :: "book \<Rightarrow> bool" where
  "copies_ok b = (0 \<le> available_copies b \<and> available_copies b \<le> total_copies b)"

text \<open>\<open>n\<close> successive calls of \<open>process_next_borrow\<close>, with their outcomes; and one
  \<open>borrow_book\<close> call for each request of a list, in order.\<close>

fun process_times :: "nat \<Rightarrow> library \<Rightarrow> (error + bool) list \<times> library" where
  "process_times 0 s = ([], s)"
| "process_times (Suc n) s =
     (case process_next_borrow s of
        (r, s') \<Rightarrow> (case process_times n s' of (rs, s'') \<Rightarrow> (r # rs, s'')))"

fun borrow_each :: "library \<Rightarrow> (string \<times> string) list \<Rightarrow> (error + bool) list \<times> library" where
  "borrow_each s [] = ([], s)"
| "borrow_each s ((uid, bid) # reqs) =
     (case borrow_book s uid bid of
        (r, s') \<Rightarrow> (case borrow_each s' reqs of (rs, s'') \<Rightarrow> (r # rs, s'')))"

fun enqueue_all :: "library \<Rightarrow> (string \<times> string) list \<Rightarrow> library" where
  "enqueue_all s [] = s"
| "enqueue_all s ((uid, bid) # reqs) = enqueue_all (enqueue_borrow_request s uid bid) reqs"

subsection \<open>tests/test\_core.py: the fixture of LibraryTests\<close>

definition test_b1 :: book where
  "test_b1 = \<lparr>item_id = ''b1'', title = ''A'', author = ''Auth'', genre = ''tech'',
          total_copies = 1, available_copies = 1, borrow_count = 0\<rparr>"

definition test_b2 :: book where
  "test_b2 = \<lparr>item_id = ''b2'', title = ''B'', author = ''Auth'', genre = ''fiction'',
          total_copies = 1, available_copies = 1, borrow_count = 0\<rparr>"

definition test_u1 :: user where
  "test_u1 = \<lparr>user_id = ''u1'', name = ''User1'', interests = {''tech''},
          borrowed_books = {}, history = []\<rparr>"

definition test_u2 :: user where
  "test_u2 = \<lparr>user_id = ''u2'', name = ''User2'', interests = {''fiction''},
          borrowed_books = {}, history = []\<rparr>"

definition test_setUp :: library where
  "test_setUp = run new_library [AddBook test_b1, AddBook test_b2, AddUser test_u1, AddUser test_u2]"

text \<open>A book with two copies, as \<open>Book("b3", "C", "Auth", genre="tech", total_copies=2,
  _available_copies=2)\<close> builds it.\<close>

definition test_b3 :: book where
  "test_b3 = \<lparr>item_id = ''b3'', title = ''C'', author = ''Auth'', genre = ''tech'',
          total_copies = 2, available_copies = 2, borrow_count = 0\<rparr>"

text \<open>A catalog in which \<open>update_book\<close> has lowered \<open>total_copies\<close> of that book to 0
  while both copies are available.\<close>

definition test_lowered :: library where
  "test_lowered =
     run new_library [AddBook test_b3, AddUser test_u1, UpdateBook ''b3'' [Kw_total_copies 0]]"

text \<open>A catalog in which the borrowed book has been removed and a new \<open>Book\<close> object
  with the same id and one copy added.\<close>

definition test_readded :: library where
  "test_readded =
     run new_library [AddBook test_b1, AddUser test_u1, BorrowBook ''u1'' ''b1'',
                      RemoveBook ''b1'', AddBook test_b1]"

subsection \<open>data\_structures.py: Graph.bfs\<close>

text \<open>The body of \<open>for neigh in self._adj[node]\<close>, run over the neighbours in iteration
  order; it updates \<open>visited\<close> and \<open>queue\<close>.\<close>

fun bfs_for ::
  "int \<Rightarrow> string list \<Rightarrow> string set \<times> (string \<times> int) list \<Rightarrow> string set \<times> (string \<times> int) list"
where
  "bfs_for depth [] (visited, queue) = (visited, queue)"
| "bfs_for depth (neigh # rest) (visited, queue) =
     (if neigh \<notin> visited
      then bfs_for depth rest (insert neigh visited, queue @ [(neigh, depth + 1)])
      else bfs_for depth rest (visited, queue))"

text \<open>The neighbours that the loop appends: those not yet visited, each once.\<close>

fun fresh :: "string set \<Rightarrow> string list \<Rightarrow> string list" where
  "fresh visited [] = []"
| "fresh visited (neigh # rest) =
     (if neigh \<notin> visited then neigh # fresh (insert neigh visited) rest
      else fresh visited rest)"

lemma bfs_for_eq:
  "bfs_for depth ns (visited, queue) =
     (visited \<union> set ns, queue @ map (\<lambda>n. (n, depth + 1)) (fresh visited ns))"
  by (induction ns arbitrary: visited queue) auto

lemma set_fresh: "set (fresh visited ns) = set ns - visited"
  by (induction ns arbitrary: visited) auto

lemma distinct_fresh: "distinct (fresh visited ns)"
  by (induction ns arbitrary: visited) (auto simp: set_fresh)

text \<open>All nodes that occur in an adjacency set.\<close>

definition adjacent_nodes :: "graph \<Rightarrow> string set" where
  "adjacent_nodes g = (\<Union>entry \<in> set g. set (snd entry))"

lemma finite_adjacent_nodes: "finite (adjacent_nodes g)"
  by (simp add: adjacent_nodes_def)

lemma map_of_adjacent_nodes: "map_of g node = Some ns \<Longrightarrow> set ns \<subseteq> adjacent_nodes g"
  by (force simp: adjacent_nodes_def dest: map_of_SomeD)

lemma bfs_for_decreases:
  assumes ns: "map_of g node = Some ns"
    and r: "(visited', queue') = bfs_for depth ns (visited, queue)"
  shows "card (adjacent_nodes g - visited') < card (adjacent_nodes g - visited)
         \<or> (visited' = visited \<and> queue' = queue)"
proof -
  from r have v: "visited' = visited \<union> set ns"
    and q: "queue' = queue @ map (\<lambda>n. (n, depth + 1)) (fresh visited ns)"
    by (simp_all add: bfs_for_eq)
  show ?thesis
  proof (cases "set ns \<subseteq> visited")
    case True
    then have "set (fresh visited ns) = {}" by (auto simp: set_fresh)
    then have "fresh visited ns = []" by (simp only: set_empty)
    with True v q show ?thesis by auto
  next
    case False
    then obtain c where c: "c \<in> set ns" "c \<notin> visited" by auto
    with map_of_adjacent_nodes[OF ns] have "c \<in> adjacent_nodes g - visited" by auto
    moreover from c v have "c \<notin> adjacent_nodes g - visited'" by simp
    moreover from v have "adjacent_nodes g - visited' \<subseteq> adjacent_nodes g - visited" by auto
    ultimately have "adjacent_nodes g - visited' \<subset> adjacent_nodes g - visited" by blast
    then show ?thesis
      using finite_adjacent_nodes[of g] by (simp add: psubset_card_mono)
  qed
qed

text \<open>The \<open>while i < len(queue)\<close> loop. \<open>self._adj[node]\<close> raises \<open>KeyError\<close> for a node
  that is not a key.\<close>

function bfs_while ::
  "graph \<Rightarrow> int \<Rightarrow> nat \<Rightarrow> string set \<Rightarrow> (string \<times> int) list \<Rightarrow> (string \<times> int) list
     \<Rightarrow> error + (string \<times> int) list"
where
  "bfs_while g max_depth i visited queue order =
     (if i < length queue then
        (case queue ! i of
           (node, depth) \<Rightarrow>
             if depth \<ge> max_depth
             then bfs_while g max_depth (i + 1) visited queue (order @ [(node, depth)])
             else (case map_of g node of
                     None \<Rightarrow> Inl KeyError
                   | Some ns \<Rightarrow>
                       (case bfs_for depth ns (visited, queue) of
                          (visited', queue') \<Rightarrow>
                            bfs_while g max_depth (i + 1) visited' queue'
                              (order @ [(node, depth)]))))
      else Inr order)"
  by pat_completeness auto
termination
proof (relation "inv_image (less_than <*lex*> less_than)
    (\<lambda>(g, max_depth, i, visited, queue, order).
        (card (adjacent_nodes g - visited), length queue - i))")
  show "wf (inv_image (less_than <*lex*> less_than)
    (\<lambda>(g, max_depth, i, visited, queue, order).
        (card (adjacent_nodes g - visited), length queue - i)))"
    by (intro wf_inv_image wf_lex_prod wf_less_than)
next
  fix g :: graph and max_depth :: int and i :: nat and visited :: "string set"
    and queue order :: "(string \<times> int) list" and node :: string and depth :: int
  assume "i < length queue" "(node, depth) = queue ! i" "max_depth \<le> depth"
  then show "((g, max_depth, i + 1, visited, queue, order @ [(node, depth)]),
              g, max_depth, i, visited, queue, order)
            \<in> inv_image (less_than <*lex*> less_than)
                (\<lambda>(g, max_depth, i, visited, queue, order).
                   (card (adjacent_nodes g - visited), length queue - i))"
    by auto
next
  fix g :: graph and max_depth :: int and i :: nat and visited :: "string set"
    and queue order :: "(string \<times> int) list" and node :: string and depth :: int
    and ns :: "string list" and visited' :: "string set" and queue' :: "(string \<times> int) list"
  assume i: "i < length queue" and "(node, depth) = queue ! i" and "\<not> max_depth \<le> depth"
    and ns: "map_of g node = Some ns"
    and r: "(visited', queue') = bfs_for depth ns (visited, queue)"
  from bfs_for_decreases[OF ns r] i
  show "((g, max_depth, i + 1, visited', queue', order @ [(node, depth)]),
          g, max_depth, i, visited, queue, order)
            \<in> inv_image (less_than <*lex*> less_than)
                (\<lambda>(g, max_depth, i, visited, queue, order).
                   (card (adjacent_nodes g - visited), length queue - i))"
    by auto
qed

declare bfs_while.simps [simp del]

definition bfs :: "graph \<Rightarrow> string \<Rightarrow> int \<Rightarrow> error + (string \<times> int) list" where
  "bfs g start max_depth =
     (if map_of g start = None then Inr []
      else bfs_while g max_depth 0 {start} [(start, 0)] [])"

text \<open>The invariant of the \<open>Graph\<close> class that \<open>bfs\<close> relies on: every neighbour is a
  key of \<open>_adj\<close>. The constructor, \<open>add_node\<close> and \<open>add_edge\<close> keep it. It says nothing
  about the order of an adjacency list, which stands for whatever order the set iterates
  in.\<close>

definition graph_closed :: "graph \<Rightarrow> bool" where
  "graph_closed g \<longleftrightarrow>
     (\<forall>n ns m. map_of g n = Some ns \<longrightarrow> m \<in> set ns \<longrightarrow> map_of g m \<noteq> None)"

text \<open>A walk of \<open>k\<close> edges from \<open>a\<close>; and the least number of edges needed to reach a
  node.\<close>

inductive hops :: "graph \<Rightarrow> string \<Rightarrow> nat \<Rightarrow> string \<Rightarrow> bool" for g a where
  hops_0: "hops g a 0 a"
| hops_Suc: "hops g a k b \<Longrightarrow> c \<in> set (neighbors g b) \<Longrightarrow> hops g a (Suc k) c"

definition distance :: "graph \<Rightarrow> string \<Rightarrow> string \<Rightarrow> nat \<Rightarrow> bool" where
  "distance g a b k = (hops g a k b \<and> (\<forall>j<k. \<not> hops g a j b))"

text \<open>The invariant of the \<open>while\<close> loop: \<open>order\<close> is the processed prefix of the queue and
  \<open>visited\<close> its set of nodes; no node is queued twice; the depths are non-decreasing, each
  is the distance of its node from \<open>start\<close>, and none exceeds the depth at \<open>i\<close> by more than
  one; the neighbours of every processed node below \<open>max_depth\<close> are queued.\<close>

definition bfs_inv ::
  "graph \<Rightarrow> int \<Rightarrow> string \<Rightarrow> nat \<Rightarrow> string set \<Rightarrow> (string \<times> int) list \<Rightarrow> (string \<times> int) list \<Rightarrow> bool"
where
  "bfs_inv g md start i V Q ord \<longleftrightarrow>
     i \<le> length Q \<and> ord = take i Q \<and> V = fst ` set Q \<and> distinct (map fst Q)
     \<and> sorted (map snd Q) \<and> Q \<noteq> [] \<and> hd Q = (start, 0)
     \<and> (\<forall>n d. (n, d) \<in> set Q \<longrightarrow>
            0 \<le> d \<and> d \<le> md \<and> distance g start n (nat d) \<and> map_of g n \<noteq> None)
     \<and> (i < length Q \<longrightarrow> (\<forall>n d. (n, d) \<in> set Q \<longrightarrow> d \<le> snd (Q ! i) + 1))
     \<and> (\<forall>n d. (n, d) \<in> set (take i Q) \<longrightarrow> d < md \<longrightarrow> set (neighbors g n) \<subseteq> fst ` set Q)"

text \<open>A graph with the triangle a, b, c, the node e attached to c and the isolated node
  d; its adjacency sets iterate in an order that is not the order of insertion.\<close>

definition test_graph :: graph where
  "test_graph =
     [(''a'', [''b'', ''c'']), (''b'', [''c'', ''a'']), (''c'', [''e'', ''a'', ''b'']),
      (''e'', [''c'']), (''d'', [])]"

subsection \<open>recommendation.py\<close>

text \<open>
  Scores are Python floats; they are modelled by exact rationals, which agree with the
  floats on every comparison made at the inputs evaluated below. Strings are ASCII:
  \<open>lower\<close> maps \<open>A\<close> to \<open>Z\<close> onto \<open>a\<close> to \<open>z\<close>, and strings compare by character code as
  Python does. The dictionary \<open>distance\<close> that \<open>recommend_for_user\<close> builds is never
  read and is left out.
\<close>

definition lower_char :: "char \<Rightarrow> char" where
  "lower_char c =
     (let n = (of_char c :: nat) in if 65 \<le> n \<and> n \<le> 90 then char_of (n + 32) else c)"

definition lower :: "string \<Rightarrow> string" where
  "lower s = map lower_char s"

fun string_le :: "string \<Rightarrow> string \<Rightarrow> bool" where
  "string_le [] t = True"
| "string_le (x # s) [] = False"
| "string_le (x # s) (y # t) =
     ((of_char x :: nat) < of_char y \<or> (x = y \<and> string_le s t))"

text \<open>The sort key \<open>(-t[1], -t[0].borrow_count, t[0].title.lower())\<close> and the order of
  such tuples.\<close>

definition rank_key :: "book \<times> rat \<Rightarrow> rat \<times> int \<times> string" where
  "rank_key t = (- snd t, - borrow_count (fst t), lower (title (fst t)))"

fun key_le :: "rat \<times> int \<times> string \<Rightarrow> rat \<times> int \<times> string \<Rightarrow> bool" where
  "key_le (s1, c1, t1) (s2, c2, t2) =
     (s1 < s2 \<or> (s1 = s2 \<and> (c1 < c2 \<or> (c1 = c2 \<and> string_le t1 t2))))"

text \<open>\<open>sorted(..., key=...)\<close> is stable: insertion from the right, an element going
  before the elements that do not precede it.\<close>

fun insort_rank :: "book \<times> rat \<Rightarrow> (book \<times> rat) list \<Rightarrow> (book \<times> rat) list" where
  "insort_rank x [] = [x]"
| "insort_rank x (y # ys) =
     (if key_le (rank_key x) (rank_key y) then x # y # ys else y # insort_rank x ys)"

definition sorted_rank :: "(book \<times> rat) list \<Rightarrow> (book \<times> rat) list" where
  "sorted_rank xs = foldr insort_rank xs []"

text \<open>The slice \<open>xs[:k]\<close>: a negative \<open>k\<close> counts from the end.\<close>

definition slice_to :: "'a list \<Rightarrow> int \<Rightarrow> 'a list" where
  "slice_to xs k = (if k \<ge> 0 then take (nat k) xs else take (nat (int (length xs) + k)) xs)"

text \<open>The loop over the traversal; \<open>candidate_scores\<close> is a dictionary from book id to
  score.\<close>

fun score_traversal ::
  "library \<Rightarrow> string \<Rightarrow> user \<Rightarrow> (string \<times> int) list \<Rightarrow> (string \<times> rat) list
     \<Rightarrow> (string \<times> rat) list"
where
  "score_traversal s uid u [] candidate_scores = candidate_scores"
| "score_traversal s uid u ((node, depth) # rest) candidate_scores =
     (if take 5 node = ''book:'' \<and> node \<noteq> ''book:'' @ uid then
        (let bid = drop 5 node in
         if bid \<in> borrowed_books u then score_traversal s uid u rest candidate_scores
         else (case map_of (books s) bid of
                 None \<Rightarrow> score_traversal s uid u rest candidate_scores
               | Some b \<Rightarrow>
                   (let score = 1 / (1 + of_int depth);
                        score = (if lower (genre b) \<in> interests u then score + 1 / 2 else score);
                        score = score + min (of_int (borrow_count b) / 10) 1
                    in score_traversal s uid u rest
                         (AList.update bid
                            (max (case map_of candidate_scores bid of None \<Rightarrow> 0 | Some x \<Rightarrow> x)
                                 score)
                            candidate_scores))))
      else score_traversal s uid u rest candidate_scores)"

text \<open>The fallback loop over \<open>books.values()\<close>.\<close>

fun score_fallback :: "user \<Rightarrow> book list \<Rightarrow> (string \<times> rat) list \<Rightarrow> (string \<times> rat) list" where
  "score_fallback u [] candidate_scores = candidate_scores"
| "score_fallback u (b # rest) candidate_scores =
     (if item_id b \<in> borrowed_books u then score_fallback u rest candidate_scores
      else (let score = 0;
                score = (if lower (genre b) \<in> interests u then score + 7 / 10 else score);
                score = score + min (of_int (borrow_count b) / 10) 1
            in if score > 0
               then score_fallback u rest (AList.update (item_id b) score candidate_scores)
               else score_fallback u rest candidate_scores))"

text \<open>The generator \<open>(self.library.books[bid], sc) for bid, sc in candidate_scores.items()\<close>;
  the subscript raises \<open>KeyError\<close> for an id that is not a key.\<close>

fun lookup_books ::
  "library \<Rightarrow> (string \<times> rat) list \<Rightarrow> error + (book \<times> rat) list"
where
  "lookup_books s [] = Inr []"
| "lookup_books s ((bid, sc) # rest) =
     (case map_of (books s) bid of
        None \<Rightarrow> Inl KeyError
      | Some b \<Rightarrow> (case lookup_books s rest of Inl e \<Rightarrow> Inl e | Inr xs \<Rightarrow> Inr ((b, sc) # xs)))"

definition recommend_for_user :: "library \<Rightarrow> string \<Rightarrow> int \<Rightarrow> error + (book \<times> rat) list" where
  "recommend_for_user s uid k =
     (case map_of (users s) uid of
        None \<Rightarrow> Inr []
      | Some u \<Rightarrow>
         (case bfs (user_book_graph s) (''user:'' @ uid) 3 of
            Inl e \<Rightarrow> Inl e
          | Inr traversal \<Rightarrow>
             (let candidate_scores = score_traversal s uid u traversal [];
                  candidate_scores =
                    (if candidate_scores = []
                     then score_fallback u (map snd (books s)) candidate_scores
                     else candidate_scores)
              in case lookup_books s candidate_scores of
                   Inl e \<Rightarrow> Inl e
                 | Inr pairs \<Rightarrow> Inr (slice_to (sorted_rank pairs) k))))"

text \<open>\<open>Library.top_k_books\<close> guards \<open>k <= 0\<close> before it selects; the selection itself
  (\<open>heapq.nlargest\<close>) is left as a parameter.\<close>

definition top_k_books :: "(int \<Rightarrow> book list \<Rightarrow> book list) \<Rightarrow> library \<Rightarrow> int \<Rightarrow> book list" where
  "top_k_books nlargest s k = (if k \<le> 0 then [] else nlargest k (map snd (books s)))"

text \<open>A catalog with two books of the genre that the user is interested in.\<close>

definition test_two_tech :: library where
  "test_two_tech = run new_library [AddBook test_b1, AddBook test_b3, AddUser test_u1]"

section \<open>Basic facts\<close>

lemma user_node_neq_book_node: "user_node u \<noteq> book_node b"
  by (simp add: user_node_def book_node_def)

lemma map_of_add_node:
  "map_of (add_node g n) m = (if m = n \<and> map_of g n = None then Some [] else map_of g m)"
  by (auto simp: add_node_def map_add_def split: option.splits)

lemma map_of_adj_add:
  "map_of (adj_add g a b) m =
     (if m = a then map_option (set_add b) (map_of g a) else map_of g m)"
  by (cases "map_of g a") (auto simp: adj_add_def map_of_map_entry)

lemma set_set_add: "set (set_add x s) = insert x (set s)"
  by (auto simp: set_add_def)

lemma neighbors_add_edge:
  assumes "a \<noteq> b"
  shows "set (neighbors (add_edge g a b) n) =
           (if n = a then insert b (set (neighbors g a))
            else if n = b then insert a (set (neighbors g b))
            else set (neighbors g n))"
  using assms
  by (auto simp: neighbors_def add_edge_def map_of_adj_add map_of_add_node set_set_add
           split: option.splits if_splits)

lemma contains_add_edge:
  assumes "a \<noteq> b"
  shows "contains (add_edge g a b) n = (n = a \<or> n = b \<or> contains g n)"
  using assms
  by (auto simp: contains_def add_edge_def map_of_adj_add map_of_add_node
           split: option.splits if_splits)

lemma map_of_add_edge_other:
  assumes "n \<noteq> a" "n \<noteq> b"
  shows "map_of (add_edge g a b) n = map_of g n"
  using assms
  by (auto simp: add_edge_def map_of_adj_add map_of_add_node)

text \<open>The constructor gives a book whose copy counts are within bounds.\<close>

lemma book_post_init_copies_ok: "book_post_init b = Inr b' \<Longrightarrow> copies_ok b'"
  by (auto simp: book_post_init_def copies_ok_def Let_def split: if_splits)

text \<open>When \<open>return_book\<close> raises: both ids known, the book in the borrowed set, and no
  copy out. The state is then as before.\<close>

lemma return_book_raises_iff:
  "(\<exists>e. fst (return_book s uid bid) = Inl e) \<longleftrightarrow>
     (\<exists>u b. map_of (users s) uid = Some u \<and> map_of (books s) bid = Some b
            \<and> bid \<in> borrowed_books u \<and> total_copies b \<le> available_copies b)"
  by (auto simp: return_book_def return_one_def split: option.splits sum.splits)

lemma return_book_raises_state:
  "fst (return_book s uid bid) = Inl e \<Longrightarrow> snd (return_book s uid bid) = s \<and> e = ValueError"
  by (auto simp: return_book_def return_one_def split: option.splits sum.splits if_splits)

subsection \<open>The test fixture, evaluated\<close>

lemmas fixture_defs = test_setUp_def run_def add_user_def add_book_def new_library_def
  test_b1_def test_b2_def test_b3_def test_u1_def test_u2_def add_node_def new_queue_def
  user_node_def book_node_def

lemma test_setUp_eq:
  "test_setUp =
     \<lparr>books = [(''b1'', test_b1), (''b2'', test_b2)],
      users = [(''u1'', test_u1), (''u2'', test_u2)],
      borrow_requests = \<lparr>chain = [], count = 0\<rparr>,
      user_book_graph = [(''book:b1'', []), (''book:b2'', []), (''user:u1'', []), (''user:u2'', [])]\<rparr>"
  by (simp add: fixture_defs)

lemma borrow_test_u1_b1:
  "borrow_book test_setUp ''u1'' ''b1'' =
     (Inr True,
      test_setUp\<lparr>books := [(''b1'', test_b1\<lparr>available_copies := 0, borrow_count := 1\<rparr>), (''b2'', test_b2)],
        users := [(''u1'', test_u1\<lparr>borrowed_books := {''b1''}, history := [''b1'']\<rparr>), (''u2'', test_u2)],
        user_book_graph := [(''book:b1'', [''user:u1'']), (''book:b2'', []),
                            (''user:u1'', [''book:b1'']), (''user:u2'', [])]\<rparr>)"
  by (simp add: test_setUp_eq borrow_book_def can_borrow_def borrow_one_def borrow_def
        add_edge_def add_node_def adj_add_def set_add_def user_node_def book_node_def
        test_b1_def test_u1_def)

lemma test_lowered_eq:
  "test_lowered =
     \<lparr>books = [(''b3'', test_b3\<lparr>total_copies := 0\<rparr>)],
      users = [(''u1'', test_u1)],
      borrow_requests = \<lparr>chain = [], count = 0\<rparr>,
      user_book_graph = [(''book:b3'', []), (''user:u1'', [])]\<rparr>"
  by (simp add: test_lowered_def update_book_def fixture_defs)

lemma borrow_test_lowered:
  "borrow_book test_lowered ''u1'' ''b3'' =
     (Inr True,
      test_lowered\<lparr>books := [(''b3'', test_b3\<lparr>total_copies := 0, available_copies := 1,
                                           borrow_count := 1\<rparr>)],
        users := [(''u1'', test_u1\<lparr>borrowed_books := {''b3''}, history := [''b3'']\<rparr>)],
        user_book_graph := [(''book:b3'', [''user:u1'']), (''user:u1'', [''book:b3''])]\<rparr>)"
  by (simp add: test_lowered_eq borrow_book_def can_borrow_def borrow_one_def borrow_def
        add_edge_def add_node_def adj_add_def set_add_def user_node_def book_node_def
        test_b3_def test_u1_def)

lemma test_readded_eq:
  "test_readded =
     \<lparr>books = [(''b1'', test_b1)],
      users = [(''u1'', test_u1\<lparr>borrowed_books := {''b1''}, history := [''b1'']\<rparr>)],
      borrow_requests = \<lparr>chain = [], count = 0\<rparr>,
      user_book_graph = [(''book:b1'', [''user:u1'']), (''user:u1'', [''book:b1''])]\<rparr>"
  by (simp add: test_readded_def fixture_defs borrow_book_def can_borrow_def borrow_one_def
        borrow_def remove_book_def add_edge_def adj_add_def set_add_def)

lemma test_books_constructed:
  "book_post_init test_b1 = Inr test_b1" "book_post_init test_b2 = Inr test_b2"
  "book_post_init test_b3 = Inr test_b3"
  by (simp_all add: book_post_init_def test_b1_def test_b2_def test_b3_def)

section \<open>Borrowing and returning\<close>

text \<open>
  Claim C1. In every state, \<open>borrow_book(user_id, book_id)\<close> returns false and leaves the
  whole state as it was when the user or the book is unknown or the book has no available
  copy. When it returns true, the book has one available copy less and one borrow more,
  the user has the book in the borrowed set and at the end of the history, the graph has
  the edge between \<open>user:user_id\<close> and \<open>book:book_id\<close> (with both nodes), and nothing
  else has changed: the other books and users, the request queue and the neighbours of
  every other node are the same. The call never raises.
\<close>

theorem borrow_book_spec:
  "((map_of (users s) uid = None \<or> map_of (books s) bid = None
      \<or> (\<exists>b. map_of (books s) bid = Some b \<and> available_copies b = 0))
     \<longrightarrow> borrow_book s uid bid = (Inr False, s))
   \<and> (borrow_book s uid bid = (Inr True, s') \<longrightarrow>
        (\<exists>u b. map_of (users s) uid = Some u \<and> map_of (books s) bid = Some b \<and>
           map_of (books s') = (map_of (books s))
              (bid \<mapsto> b\<lparr>available_copies := available_copies b - 1,
                         borrow_count := borrow_count b + 1\<rparr>) \<and>
           map_of (users s') = (map_of (users s))
              (uid \<mapsto> u\<lparr>borrowed_books := insert bid (borrowed_books u),
                         history := history u @ [bid]\<rparr>) \<and>
           borrow_requests s' = borrow_requests s \<and>
           (\<forall>n. set (neighbors (user_book_graph s') n) =
                  (if n = user_node uid
                   then insert (book_node bid) (set (neighbors (user_book_graph s) n))
                   else if n = book_node bid
                   then insert (user_node uid) (set (neighbors (user_book_graph s) n))
                   else set (neighbors (user_book_graph s) n))) \<and>
           (\<forall>n. contains (user_book_graph s') n =
                  (n = user_node uid \<or> n = book_node bid \<or> contains (user_book_graph s) n))))
   \<and> fst (borrow_book s uid bid) \<in> {Inr False, Inr True}"
  by (auto simp: borrow_book_def can_borrow_def borrow_one_def borrow_def update_conv'
        neighbors_add_edge contains_add_edge user_node_neq_book_node
        user_node_neq_book_node[symmetric]
        split: option.splits if_splits sum.splits)

theorem borrow_book_spec_witness:
  "map_of (books test_setUp) ''nope'' = None
   \<and> borrow_book test_setUp ''u1'' ''nope'' = (Inr False, test_setUp)
   \<and> fst (borrow_book test_setUp ''u1'' ''b1'') = Inr True
   \<and> borrow_requests (snd (borrow_book test_setUp ''u1'' ''b1'')) = borrow_requests test_setUp"
proof -
  have h1: "map_of (books test_setUp) ''nope'' = None"
    by (simp add: test_setUp_eq)
  have h2: "borrow_book test_setUp ''u1'' ''b1''
              = (Inr True, snd (borrow_book test_setUp ''u1'' ''b1''))"
    by (simp add: borrow_test_u1_b1)
  from borrow_book_spec[of test_setUp "''u1''" "''nope''"] h1
  have c1: "borrow_book test_setUp ''u1'' ''nope'' = (Inr False, test_setUp)" by blast
  from borrow_book_spec[of test_setUp "''u1''" "''b1''" "snd (borrow_book test_setUp ''u1'' ''b1'')"] h2
  have c2: "borrow_requests (snd (borrow_book test_setUp ''u1'' ''b1'')) = borrow_requests test_setUp"
    by blast
  from h1 h2 c1 c2 show ?thesis by (metis fst_conv)
qed

text \<open>One borrow or return call keeps the copy counts of every book within bounds.\<close>

lemma borrow_step_copies_ok:
  assumes "map_of (books s) bid = Some b" "copies_ok b"
  shows "\<exists>b'. map_of (books (snd (borrow_book s uid bid'))) bid = Some b' \<and> copies_ok b'"
  using assms
  by (auto simp: borrow_book_def can_borrow_def borrow_one_def copies_ok_def update_conv'
           split: option.splits sum.splits)

lemma return_step_copies_ok:
  assumes "map_of (books s) bid = Some b" "copies_ok b"
  shows "\<exists>b'. map_of (books (snd (return_book s uid bid'))) bid = Some b' \<and> copies_ok b'"
  using assms
  by (auto simp: return_book_def return_one_def copies_ok_def update_conv'
           split: option.splits sum.splits)

text \<open>
  Claim C3. For every book that satisfies \<open>0 \<le> available_copies \<le> total_copies\<close> in a
  state, and every sequence of \<open>borrow_book\<close> and \<open>return_book\<close> calls (by any users, on
  any books, returning or raising) from that state, the book is still in the catalog
  afterwards and still satisfies \<open>0 \<le> available_copies \<le> total_copies\<close>.
\<close>

theorem copies_invariant_borrow_return:
  assumes "map_of (books s) bid = Some b" and "copies_ok b"
    and "\<forall>c \<in> set calls. is_borrow_or_return c"
  shows "\<exists>b'. map_of (books (run s calls)) bid = Some b' \<and> copies_ok b'"
  using assms
proof (induction calls arbitrary: s b)
  case Nil
  then show ?case by (simp add: run_def)
next
  case (Cons c calls)
  from Cons.prems(3) have c: "is_borrow_or_return c" by simp
  have "\<exists>bx. map_of (books (exec s c)) bid = Some bx \<and> copies_ok bx"
  proof (cases c)
    case (BorrowBook u x)
    then show ?thesis using borrow_step_copies_ok[OF Cons.prems(1,2)] by simp
  next
    case (ReturnBook u x)
    then show ?thesis using return_step_copies_ok[OF Cons.prems(1,2)] by simp
  qed (use c in simp_all)
  then obtain bx where bx: "map_of (books (exec s c)) bid = Some bx" "copies_ok bx" by blast
  from Cons.IH[OF bx] Cons.prems(3) show ?case by (simp add: run_def)
qed

theorem copies_invariant_borrow_return_witness:
  "map_of (books test_setUp) ''b1'' = Some test_b1 \<and> copies_ok test_b1
   \<and> list_all is_borrow_or_return
         [BorrowBook ''u1'' ''b1'', BorrowBook ''u2'' ''b1'', ReturnBook ''u1'' ''b1'']
   \<and> (\<exists>b'. map_of (books (run test_setUp
               [BorrowBook ''u1'' ''b1'', BorrowBook ''u2'' ''b1'', ReturnBook ''u1'' ''b1'']))
             ''b1'' = Some b' \<and> copies_ok b')"
proof -
  have h1: "map_of (books test_setUp) ''b1'' = Some test_b1"
    by (simp add: test_setUp_eq)
  have h2: "copies_ok test_b1"
    by (simp add: copies_ok_def test_b1_def)
  have h3: "\<forall>c \<in> set [BorrowBook ''u1'' ''b1'', BorrowBook ''u2'' ''b1'', ReturnBook ''u1'' ''b1''].
              is_borrow_or_return c"
    by simp
  have h3': "list_all is_borrow_or_return
         [BorrowBook ''u1'' ''b1'', BorrowBook ''u2'' ''b1'', ReturnBook ''u1'' ''b1'']"
    by simp
  from copies_invariant_borrow_return[OF h1 h2 h3] h1 h2 h3' show ?thesis by blast
qed

text \<open>
  Claim C4. In every state, \<open>return_book(user_id, book_id)\<close> returns false exactly when
  the user is unknown, the book is unknown, or the book is not in the user's borrowed set;
  and whenever it returns false the state (all book counts, the user's borrowed set and
  history, and everything else) is left as it was. In those cases it returns, it does
  not raise.
\<close>

theorem return_book_failure:
  "(fst (return_book s uid bid) = Inr False \<longleftrightarrow>
      (map_of (users s) uid = None \<or> map_of (books s) bid = None
       \<or> (\<exists>u. map_of (users s) uid = Some u \<and> bid \<notin> borrowed_books u)))
   \<and> (fst (return_book s uid bid) = Inr False \<longrightarrow> snd (return_book s uid bid) = s)"
  by (auto simp: return_book_def return_one_def split: option.splits sum.splits)

theorem return_book_failure_witness:
  "(\<exists>u. map_of (users test_setUp) ''u1'' = Some u \<and> ''b1'' \<notin> borrowed_books u)
   \<and> return_book test_setUp ''u1'' ''b1'' = (Inr False, test_setUp)"
proof -
  have h: "\<exists>u. map_of (users test_setUp) ''u1'' = Some u \<and> ''b1'' \<notin> borrowed_books u"
    by (simp add: test_setUp_eq test_u1_def)
  from return_book_failure[of test_setUp "''u1''" "''b1''"] h
  have "fst (return_book test_setUp ''u1'' ''b1'') = Inr False
        \<and> snd (return_book test_setUp ''u1'' ''b1'') = test_setUp"
    by blast
  with h show ?thesis by (metis prod.collapse)
qed

text \<open>
  Claim C5, as stated for every state in which the borrow succeeds, fails where the book
  has more available copies than \<open>total_copies\<close>: in \<open>test_lowered\<close> the borrow succeeds
  and the return that follows raises \<open>ValueError\<close> in \<open>Book.return_one\<close>.
\<close>

theorem borrow_then_return_counterexample:
  "fst (borrow_book test_lowered ''u1'' ''b3'') = Inr True
   \<and> fst (return_book (snd (borrow_book test_lowered ''u1'' ''b3'')) ''u1'' ''b3'')
       = Inl ValueError"
  by (simp add: borrow_test_lowered return_book_def return_one_def test_b3_def test_u1_def)

text \<open>
  Claim C5, amended. For every state in which \<open>borrow_book(u, b)\<close> succeeds and the
  book's available copies did not exceed \<open>total_copies\<close>, calling \<open>return_book(u, b)\<close> next
  succeeds, brings \<open>available_copies\<close> back to its value before the borrow, removes \<open>b\<close>
  from the borrowed set of \<open>u\<close> and keeps the history entry that the borrow appended.
\<close>

theorem borrow_then_return:
  assumes "borrow_book s uid bid = (Inr True, s1)"
    and "map_of (books s) bid = Some b" and "map_of (users s) uid = Some u"
    and "available_copies b \<le> total_copies b"
  shows "\<exists>s2 b2 u2. return_book s1 uid bid = (Inr True, s2)
           \<and> map_of (books s2) bid = Some b2 \<and> available_copies b2 = available_copies b
           \<and> map_of (users s2) uid = Some u2 \<and> bid \<notin> borrowed_books u2
           \<and> history u2 = history u @ [bid]"
  using assms
  by (auto simp: borrow_book_def return_book_def can_borrow_def borrow_one_def return_one_def
        borrow_def user_return_book_def update_conv'
        split: option.splits sum.splits if_splits)

theorem borrow_then_return_witness:
  "borrow_book test_setUp ''u1'' ''b1'' = (Inr True, snd (borrow_book test_setUp ''u1'' ''b1''))
   \<and> map_of (books test_setUp) ''b1'' = Some test_b1
   \<and> map_of (users test_setUp) ''u1'' = Some test_u1
   \<and> available_copies test_b1 \<le> total_copies test_b1
   \<and> (\<exists>s2 b2 u2. return_book (snd (borrow_book test_setUp ''u1'' ''b1'')) ''u1'' ''b1''
                     = (Inr True, s2)
           \<and> map_of (books s2) ''b1'' = Some b2 \<and> available_copies b2 = available_copies test_b1
           \<and> map_of (users s2) ''u1'' = Some u2 \<and> ''b1'' \<notin> borrowed_books u2
           \<and> history u2 = history test_u1 @ [''b1''])"
proof -
  have h1: "borrow_book test_setUp ''u1'' ''b1''
              = (Inr True, snd (borrow_book test_setUp ''u1'' ''b1''))"
    by (simp add: borrow_test_u1_b1)
  have h2: "map_of (books test_setUp) ''b1'' = Some test_b1"
    by (simp add: test_setUp_eq)
  have h3: "map_of (users test_setUp) ''u1'' = Some test_u1"
    by (simp add: test_setUp_eq)
  have h4: "available_copies test_b1 \<le> total_copies test_b1"
    by (simp add: test_b1_def)
  from borrow_then_return[OF h1 h2 h3 h4] h1 h2 h3 h4 show ?thesis by blast
qed

text \<open>
  Claim C2 says that no sequence of public operations from the empty catalog brings
  \<open>return_book\<close> to the over-return condition, so that it always returns a boolean. The
  code does not keep that: after \<open>add_book\<close>, \<open>add_user\<close>, \<open>borrow_book\<close>, \<open>remove_book\<close>
  and \<open>add_book\<close> of a new book with the same id, the user still holds the id in the
  borrowed set, the book has all its copies available, and \<open>return_book\<close> raises
  \<open>ValueError\<close> out of \<open>Book.return_one\<close>, leaving the state as it was.
\<close>

theorem return_book_raises:
  "map_option borrowed_books (map_of (users test_readded) ''u1'') = Some {''b1''}
   \<and> map_option available_copies (map_of (books test_readded) ''b1'') = Some 1
   \<and> map_option total_copies (map_of (books test_readded) ''b1'') = Some 1
   \<and> return_book test_readded ''u1'' ''b1'' = (Inl ValueError, test_readded)"
  by (simp add: test_readded_eq return_book_def return_one_def test_b1_def test_u1_def)

text \<open>
  Claim C10, as stated for every book with at least two available copies, fails where
  the available copies exceed \<open>total_copies\<close> by two or more: in \<open>test_lowered\<close> both
  borrows succeed and the first return raises \<open>ValueError\<close>.
\<close>

theorem double_borrow_counterexample:
  "fst (borrow_book test_lowered ''u1'' ''b3'') = Inr True
   \<and> fst (borrow_book (snd (borrow_book test_lowered ''u1'' ''b3'')) ''u1'' ''b3'') = Inr True
   \<and> fst (return_book
            (snd (borrow_book (snd (borrow_book test_lowered ''u1'' ''b3'')) ''u1'' ''b3''))
            ''u1'' ''b3'') = Inl ValueError"
  unfolding borrow_test_lowered snd_conv fst_conv
  by (simp add: test_lowered_eq borrow_book_def can_borrow_def borrow_one_def borrow_def
        return_book_def return_one_def test_b3_def test_u1_def)

text \<open>
  Claim C10, amended. If a known user borrows the same book twice in a row, the book
  having at least two available copies and at most \<open>total_copies + 1\<close> of them (as it
  has whenever \<open>available_copies \<le> total_copies\<close>),
  then both borrows succeed, the borrowed set has gained just that id and the history has
  gained it twice; the first \<open>return_book\<close> after that succeeds and the second returns
  false and changes nothing, so that \<open>available_copies\<close> ends one below its value before
  the two borrows.
\<close>

theorem double_borrow_single_return:
  assumes "map_of (users s) uid = Some u" and "map_of (books s) bid = Some b"
    and "2 \<le> available_copies b" and "available_copies b \<le> total_copies b + 1"
  shows "\<exists>s1 s2 s3 u2 b3.
           borrow_book s uid bid = (Inr True, s1) \<and> borrow_book s1 uid bid = (Inr True, s2)
         \<and> map_of (users s2) uid = Some u2
         \<and> borrowed_books u2 = insert bid (borrowed_books u)
         \<and> history u2 = history u @ [bid, bid]
         \<and> return_book s2 uid bid = (Inr True, s3)
         \<and> return_book s3 uid bid = (Inr False, s3)
         \<and> map_of (books s3) bid = Some b3
         \<and> available_copies b3 = available_copies b - 1"
  using assms
  by (simp add: borrow_book_def return_book_def can_borrow_def borrow_one_def return_one_def
        borrow_def user_return_book_def update_conv')

theorem double_borrow_single_return_witness:
  "map_of (users (add_user (add_book new_library test_b3) test_u1)) ''u1'' = Some test_u1
   \<and> map_of (books (add_user (add_book new_library test_b3) test_u1)) ''b3'' = Some test_b3
   \<and> 2 \<le> available_copies test_b3 \<and> available_copies test_b3 \<le> total_copies test_b3 + 1
   \<and> (\<exists>s1 s2 s3 u2 b3.
           borrow_book (add_user (add_book new_library test_b3) test_u1) ''u1'' ''b3'' = (Inr True, s1)
         \<and> borrow_book s1 ''u1'' ''b3'' = (Inr True, s2)
         \<and> map_of (users s2) ''u1'' = Some u2
         \<and> borrowed_books u2 = insert ''b3'' (borrowed_books test_u1)
         \<and> history u2 = history test_u1 @ [''b3'', ''b3'']
         \<and> return_book s2 ''u1'' ''b3'' = (Inr True, s3)
         \<and> return_book s3 ''u1'' ''b3'' = (Inr False, s3)
         \<and> map_of (books s3) ''b3'' = Some b3
         \<and> available_copies b3 = available_copies test_b3 - 1)"
proof -
  let ?s = "add_user (add_book new_library test_b3) test_u1"
  have h1: "map_of (users ?s) ''u1'' = Some test_u1" by (simp add: fixture_defs)
  have h2: "map_of (books ?s) ''b3'' = Some test_b3" by (simp add: fixture_defs)
  have h3: "2 \<le> available_copies test_b3" by (simp add: test_b3_def)
  have h4: "available_copies test_b3 \<le> total_copies test_b3 + 1" by (simp add: test_b3_def)
  from double_borrow_single_return[OF h1 h2 h3 h4] h1 h2 h3 h4 show ?thesis by blast
qed

section \<open>Updating a book\<close>

lemma set_kwarg_settable: "settable k \<Longrightarrow> \<exists>b1. set_kwarg b k = Inr b1"
  by (cases k) simp_all

lemma update_loop_settable:
  "\<forall>k \<in> set ks. settable k \<Longrightarrow> fst (update_loop b ks) = None"
proof (induction ks arbitrary: b)
  case Nil
  show ?case by simp
next
  case (Cons k ks)
  then obtain b1 where "set_kwarg b k = Inr b1" using set_kwarg_settable[of k b] by auto
  with Cons show ?case by simp
qed

lemma update_loop_frame:
  assumes frame: "\<forall>b k b1. set_kwarg b k = Inr b1 \<longrightarrow> kw_name k \<noteq> nm \<longrightarrow> f b1 = f b"
    and "\<forall>k \<in> set ks. settable k" and "nm \<notin> kw_name ` set ks"
  shows "f (snd (update_loop b ks)) = f b"
  using assms(2,3)
proof (induction ks arbitrary: b)
  case Nil
  show ?case by simp
next
  case (Cons k ks)
  then obtain b1 where b1: "set_kwarg b k = Inr b1" using set_kwarg_settable[of k b] by auto
  from Cons.prems have "kw_name k \<noteq> nm" by auto
  with frame b1 have "f b1 = f b" by blast
  with Cons.IH[of b1] Cons.prems show ?case by (simp add: b1)
qed

lemma update_loop_assigns:
  assumes frame: "\<forall>b k b1. set_kwarg b k = Inr b1 \<longrightarrow> kw_name k \<noteq> nm \<longrightarrow> f b1 = f b"
    and assign: "\<forall>b. \<exists>b1. set_kwarg b kv = Inr b1 \<and> f b1 = v"
    and nm: "kw_name kv = nm"
    and "\<forall>k \<in> set ks. settable k" and "distinct (map kw_name ks)" and "kv \<in> set ks"
  shows "f (snd (update_loop b ks)) = v"
  using assms(4,5,6)
proof (induction ks arbitrary: b)
  case Nil
  then show ?case by simp
next
  case (Cons k ks)
  then obtain b1 where b1: "set_kwarg b k = Inr b1" using set_kwarg_settable[of k b] by auto
  from Cons.prems have ks: "\<forall>k \<in> set ks. settable k" "distinct (map kw_name ks)"
    and k: "kw_name k \<notin> kw_name ` set ks" by auto
  show ?case
  proof (cases "k = kv")
    case True
    with assign b1 have "f b1 = v" by (metis sum.inject(2))
    moreover from True k nm have "nm \<notin> kw_name ` set ks" by simp
    ultimately show ?thesis
      using update_loop_frame[of nm f ks b1, OF frame ks(1)] by (simp add: b1)
  next
    case False
    with Cons.prems(3) have "kv \<in> set ks" by simp
    from Cons.IH[OF ks this, of b1] show ?thesis by (simp add: b1)
  qed
qed

lemma frame_item_id:
  "\<forall>b k b1. set_kwarg b k = Inr b1 \<longrightarrow> kw_name k \<noteq> ''item_id'' \<longrightarrow> item_id b1 = item_id b"
proof (intro allI impI)
  fix b k b1
  assume "set_kwarg b k = Inr b1" "kw_name k \<noteq> ''item_id''"
  then show "item_id b1 = item_id b" by (cases k) auto
qed
lemma frame_title:
  "\<forall>b k b1. set_kwarg b k = Inr b1 \<longrightarrow> kw_name k \<noteq> ''title'' \<longrightarrow> title b1 = title b"
proof (intro allI impI)
  fix b k b1
  assume "set_kwarg b k = Inr b1" "kw_name k \<noteq> ''title''"
  then show "title b1 = title b" by (cases k) auto
qed
lemma frame_author:
  "\<forall>b k b1. set_kwarg b k = Inr b1 \<longrightarrow> kw_name k \<noteq> ''author'' \<longrightarrow> author b1 = author b"
proof (intro allI impI)
  fix b k b1
  assume "set_kwarg b k = Inr b1" "kw_name k \<noteq> ''author''"
  then show "author b1 = author b" by (cases k) auto
qed
lemma frame_genre:
  "\<forall>b k b1. set_kwarg b k = Inr b1 \<longrightarrow> kw_name k \<noteq> ''genre'' \<longrightarrow> genre b1 = genre b"
proof (intro allI impI)
  fix b k b1
  assume "set_kwarg b k = Inr b1" "kw_name k \<noteq> ''genre''"
  then show "genre b1 = genre b" by (cases k) auto
qed
lemma frame_total_copies:
  "\<forall>b k b1. set_kwarg b k = Inr b1 \<longrightarrow> kw_name k \<noteq> ''total_copies'' \<longrightarrow> total_copies b1 = total_copies b"
proof (intro allI impI)
  fix b k b1
  assume "set_kwarg b k = Inr b1" "kw_name k \<noteq> ''total_copies''"
  then show "total_copies b1 = total_copies b" by (cases k) auto
qed
lemma frame_available_copies:
  "\<forall>b k b1. set_kwarg b k = Inr b1 \<longrightarrow> kw_name k \<noteq> ''_available_copies'' \<longrightarrow> available_copies b1 = available_copies b"
proof (intro allI impI)
  fix b k b1
  assume "set_kwarg b k = Inr b1" "kw_name k \<noteq> ''_available_copies''"
  then show "available_copies b1 = available_copies b" by (cases k) auto
qed
lemma frame_borrow_count:
  "\<forall>b k b1. set_kwarg b k = Inr b1 \<longrightarrow> kw_name k \<noteq> ''borrow_count'' \<longrightarrow> borrow_count b1 = borrow_count b"
proof (intro allI impI)
  fix b k b1
  assume "set_kwarg b k = Inr b1" "kw_name k \<noteq> ''borrow_count''"
  then show "borrow_count b1 = borrow_count b" by (cases k) auto
qed

lemma update_book_settable:
  assumes "map_of (books s) bid = Some b" and "\<forall>k \<in> set ks. settable k"
  shows "update_book s bid ks =
           (Inr True, s\<lparr>books := AList.update bid (snd (update_loop b ks)) (books s)\<rparr>)"
  using assms(1) update_loop_settable[OF assms(2), of b]
  by (cases "update_loop b ks") (simp add: update_book_def)

text \<open>
  Claim C9, as stated for every key that names an attribute of \<open>Book\<close>, fails for the
  read-only property \<open>available_copies\<close>: \<open>hasattr\<close> holds for it, \<open>setattr\<close> raises
  \<open>AttributeError\<close>, and the available count stays as it was.
\<close>

theorem update_book_property_counterexample:
  "update_book test_setUp ''b1'' [Kw_available_copies_property 5] = (Inl AttributeError, test_setUp)
   \<and> map_option available_copies (map_of (books test_setUp) ''b1'') = Some 1"
  by (simp add: update_book_def test_setUp_eq test_b1_def)

text \<open>
  Claim C9, amended. \<open>update_book\<close> on a known book, with keywords other than the
  property \<open>available_copies\<close>, returns true and sets every supplied key that names a
  dataclass field of \<open>Book\<close> (\<open>item_id\<close>, \<open>title\<close>, \<open>author\<close>, \<open>genre\<close>, \<open>total_copies\<close>,
  \<open>_available_copies\<close>, \<open>borrow_count\<close>) to the supplied value as it is, with no validation,
  and leaves the fields that are not supplied as they were. Consequently there is a
  state reached from the empty catalog (one book with two of two copies available) and an
  update (\<open>total_copies = 0\<close>) after which \<open>update_book\<close> has returned true and the book
  no longer satisfies \<open>0 \<le> available_copies \<le> total_copies\<close>.
\<close>

theorem update_book_verbatim:
  "(map_of (books s) bid = Some b \<and> (\<forall>k \<in> set ks. settable k) \<and> distinct (map kw_name ks) \<longrightarrow>
      (\<exists>b'. update_book s bid ks = (Inr True, s\<lparr>books := AList.update bid b' (books s)\<rparr>)
        \<and> (\<forall>v. Kw_item_id v \<in> set ks \<longrightarrow> item_id b' = v)
        \<and> (\<forall>v. Kw_title v \<in> set ks \<longrightarrow> title b' = v)
        \<and> (\<forall>v. Kw_author v \<in> set ks \<longrightarrow> author b' = v)
        \<and> (\<forall>v. Kw_genre v \<in> set ks \<longrightarrow> genre b' = v)
        \<and> (\<forall>v. Kw_total_copies v \<in> set ks \<longrightarrow> total_copies b' = v)
        \<and> (\<forall>v. Kw_available_copies_field v \<in> set ks \<longrightarrow> available_copies b' = v)
        \<and> (\<forall>v. Kw_borrow_count v \<in> set ks \<longrightarrow> borrow_count b' = v)
        \<and> (''item_id'' \<notin> kw_name ` set ks \<longrightarrow> item_id b' = item_id b)
        \<and> (''title'' \<notin> kw_name ` set ks \<longrightarrow> title b' = title b)
        \<and> (''author'' \<notin> kw_name ` set ks \<longrightarrow> author b' = author b)
        \<and> (''genre'' \<notin> kw_name ` set ks \<longrightarrow> genre b' = genre b)
        \<and> (''total_copies'' \<notin> kw_name ` set ks \<longrightarrow> total_copies b' = total_copies b)
        \<and> (''_available_copies'' \<notin> kw_name ` set ks
              \<longrightarrow> available_copies b' = available_copies b)
        \<and> (''borrow_count'' \<notin> kw_name ` set ks \<longrightarrow> borrow_count b' = borrow_count b)))
   \<and> (\<exists>b0 s' b'. map_of (books (run new_library [AddBook test_b3])) ''b3'' = Some b0
          \<and> copies_ok b0
          \<and> update_book (run new_library [AddBook test_b3]) ''b3'' [Kw_total_copies 0]
                = (Inr True, s')
          \<and> map_of (books s') ''b3'' = Some b' \<and> \<not> copies_ok b')"
proof (intro conjI impI)
  assume a: "map_of (books s) bid = Some b \<and> (\<forall>k \<in> set ks. settable k)
             \<and> distinct (map kw_name ks)"
  then have m: "map_of (books s) bid = Some b" and st: "\<forall>k \<in> set ks. settable k"
    and d: "distinct (map kw_name ks)" by auto
  let ?b = "snd (update_loop b ks)"
  note A = update_loop_assigns[where ks = ks and b = b, OF _ _ _ st d]
  note F = update_loop_frame[where ks = ks and b = b, OF _ st]
  have 1: "update_book s bid ks = (Inr True, s\<lparr>books := AList.update bid ?b (books s)\<rparr>)"
    by (rule update_book_settable[OF m st])
  have 2: "Kw_item_id v \<in> set ks \<longrightarrow> item_id ?b = v" for v
    using A[OF frame_item_id, where kv = "Kw_item_id v" and v = v] by simp
  have 3: "Kw_title v \<in> set ks \<longrightarrow> title ?b = v" for v
    using A[OF frame_title, where kv = "Kw_title v" and v = v] by simp
  have 4: "Kw_author v \<in> set ks \<longrightarrow> author ?b = v" for v
    using A[OF frame_author, where kv = "Kw_author v" and v = v] by simp
  have 5: "Kw_genre v \<in> set ks \<longrightarrow> genre ?b = v" for v
    using A[OF frame_genre, where kv = "Kw_genre v" and v = v] by simp
  have 6: "Kw_total_copies v \<in> set ks \<longrightarrow> total_copies ?b = v" for v
    using A[OF frame_total_copies, where kv = "Kw_total_copies v" and v = v] by simp
  have 7: "Kw_available_copies_field v \<in> set ks \<longrightarrow> available_copies ?b = v" for v
    using A[OF frame_available_copies, where kv = "Kw_available_copies_field v" and v = v] by simp
  have 8: "Kw_borrow_count v \<in> set ks \<longrightarrow> borrow_count ?b = v" for v
    using A[OF frame_borrow_count, where kv = "Kw_borrow_count v" and v = v] by simp
  have 9: "''item_id'' \<notin> kw_name ` set ks \<longrightarrow> item_id ?b = item_id b"
    using F[OF frame_item_id] by simp
  have 10: "''title'' \<notin> kw_name ` set ks \<longrightarrow> title ?b = title b"
    using F[OF frame_title] by simp
  have 11: "''author'' \<notin> kw_name ` set ks \<longrightarrow> author ?b = author b"
    using F[OF frame_author] by simp
  have 12: "''genre'' \<notin> kw_name ` set ks \<longrightarrow> genre ?b = genre b"
    using F[OF frame_genre] by simp
  have 13: "''total_copies'' \<notin> kw_name ` set ks \<longrightarrow> total_copies ?b = total_copies b"
    using F[OF frame_total_copies] by simp
  have 14: "''_available_copies'' \<notin> kw_name ` set ks
              \<longrightarrow> available_copies ?b = available_copies b"
    using F[OF frame_available_copies] by simp
  have 15: "''borrow_count'' \<notin> kw_name ` set ks \<longrightarrow> borrow_count ?b = borrow_count b"
    using F[OF frame_borrow_count] by simp
  show "\<exists>b'. update_book s bid ks = (Inr True, s\<lparr>books := AList.update bid b' (books s)\<rparr>)
        \<and> (\<forall>v. Kw_item_id v \<in> set ks \<longrightarrow> item_id b' = v)
        \<and> (\<forall>v. Kw_title v \<in> set ks \<longrightarrow> title b' = v)
        \<and> (\<forall>v. Kw_author v \<in> set ks \<longrightarrow> author b' = v)
        \<and> (\<forall>v. Kw_genre v \<in> set ks \<longrightarrow> genre b' = v)
        \<and> (\<forall>v. Kw_total_copies v \<in> set ks \<longrightarrow> total_copies b' = v)
        \<and> (\<forall>v. Kw_available_copies_field v \<in> set ks \<longrightarrow> available_copies b' = v)
        \<and> (\<forall>v. Kw_borrow_count v \<in> set ks \<longrightarrow> borrow_count b' = v)
        \<and> (''item_id'' \<notin> kw_name ` set ks \<longrightarrow> item_id b' = item_id b)
        \<and> (''title'' \<notin> kw_name ` set ks \<longrightarrow> title b' = title b)
        \<and> (''author'' \<notin> kw_name ` set ks \<longrightarrow> author b' = author b)
        \<and> (''genre'' \<notin> kw_name ` set ks \<longrightarrow> genre b' = genre b)
        \<and> (''total_copies'' \<notin> kw_name ` set ks \<longrightarrow> total_copies b' = total_copies b)
        \<and> (''_available_copies'' \<notin> kw_name ` set ks
              \<longrightarrow> available_copies b' = available_copies b)
        \<and> (''borrow_count'' \<notin> kw_name ` set ks \<longrightarrow> borrow_count b' = borrow_count b)"
    by (intro exI[of _ ?b] conjI allI; fact)
next
  show "\<exists>b0 s' b'. map_of (books (run new_library [AddBook test_b3])) ''b3'' = Some b0
          \<and> copies_ok b0
          \<and> update_book (run new_library [AddBook test_b3]) ''b3'' [Kw_total_copies 0]
                = (Inr True, s')
          \<and> map_of (books s') ''b3'' = Some b' \<and> \<not> copies_ok b'"
    by (simp add: fixture_defs update_book_def copies_ok_def)
qed

theorem update_book_verbatim_witness:
  "map_of (books test_setUp) ''b1'' = Some test_b1
   \<and> list_all settable [Kw_total_copies 0, Kw_borrow_count 7]
   \<and> distinct (map kw_name [Kw_total_copies 0, Kw_borrow_count 7])
   \<and> (\<exists>b'. update_book test_setUp ''b1'' [Kw_total_copies 0, Kw_borrow_count 7]
               = (Inr True, test_setUp\<lparr>books := AList.update ''b1'' b' (books test_setUp)\<rparr>)
          \<and> total_copies b' = 0 \<and> borrow_count b' = 7
          \<and> available_copies b' = available_copies test_b1)"
proof -
  let ?ks = "[Kw_total_copies 0, Kw_borrow_count 7]"
  have h: "map_of (books test_setUp) ''b1'' = Some test_b1
           \<and> (\<forall>k \<in> set ?ks. settable k) \<and> distinct (map kw_name ?ks)"
    by (simp add: test_setUp_eq)
  have m: "Kw_total_copies 0 \<in> set ?ks" "Kw_borrow_count 7 \<in> set ?ks"
    "''_available_copies'' \<notin> kw_name ` set ?ks"
    by simp_all
  from update_book_verbatim[of test_setUp "''b1''" test_b1 ?ks] h
  obtain b' where b': "update_book test_setUp ''b1'' ?ks
               = (Inr True, test_setUp\<lparr>books := AList.update ''b1'' b' (books test_setUp)\<rparr>)"
     "\<forall>v. Kw_total_copies v \<in> set ?ks \<longrightarrow> total_copies b' = v"
     "\<forall>v. Kw_borrow_count v \<in> set ?ks \<longrightarrow> borrow_count b' = v"
     "''_available_copies'' \<notin> kw_name ` set ?ks \<longrightarrow> available_copies b' = available_copies test_b1"
    by blast
  from b'(2) m(1) have 1: "total_copies b' = 0" by blast
  from b'(3) m(2) have 2: "borrow_count b' = 7" by blast
  from b'(4) m(3) have 3: "available_copies b' = available_copies test_b1" by blast
  have h': "map_of (books test_setUp) ''b1'' = Some test_b1
           \<and> list_all settable ?ks \<and> distinct (map kw_name ?ks)"
    by (simp add: test_setUp_eq)
  from h' b'(1) 1 2 3 show ?thesis by blast
qed

section \<open>The request queue\<close>

text \<open>\<open>borrow_book\<close> neither reads nor writes the request queue.\<close>

lemma borrow_book_queue:
  "borrow_book (s\<lparr>borrow_requests := q\<rparr>) uid bid =
     (fst (borrow_book s uid bid), (snd (borrow_book s uid bid))\<lparr>borrow_requests := q\<rparr>)"
  by (simp add: borrow_book_def split: option.splits sum.splits)

lemma borrow_book_keeps_queue:
  "borrow_requests (snd (borrow_book s uid bid)) = borrow_requests s"
  by (simp add: borrow_book_def split: option.splits sum.splits)

lemma borrow_each_queue:
  "borrow_each (s\<lparr>borrow_requests := q\<rparr>) reqs =
     (fst (borrow_each s reqs), (snd (borrow_each s reqs))\<lparr>borrow_requests := q\<rparr>)"
proof (induction reqs arbitrary: s)
  case Nil
  show ?case by simp
next
  case (Cons r reqs)
  obtain uid bid where r: "r = (uid, bid)" by (cases r)
  show ?case
    by (simp add: r borrow_book_queue Cons.IH[of "snd (borrow_book s uid bid)"]
          split: prod.splits)
qed

lemma enqueue_all_eq:
  "enqueue_all s reqs =
     s\<lparr>borrow_requests := \<lparr>chain = chain (borrow_requests s) @ reqs,
                            count = count (borrow_requests s) + int (length reqs)\<rparr>\<rparr>"
proof (induction reqs arbitrary: s)
  case Nil
  show ?case by simp
next
  case (Cons r reqs)
  obtain uid bid where r: "r = (uid, bid)" by (cases r)
  show ?case by (simp add: r Cons.IH enqueue_borrow_request_def enqueue_def)
qed

lemma process_times_queue:
  assumes "n \<le> length reqs"
  shows "process_times n (s\<lparr>borrow_requests := \<lparr>chain = reqs, count = int (length reqs)\<rparr>\<rparr>) =
     (fst (borrow_each s (take n reqs)),
      (snd (borrow_each s (take n reqs)))
        \<lparr>borrow_requests := \<lparr>chain = drop n reqs, count = int (length reqs) - int n\<rparr>\<rparr>)"
  using assms
proof (induction n arbitrary: s reqs)
  case 0
  show ?case by simp
next
  case (Suc n)
  then obtain r rest where reqs: "reqs = r # rest" by (cases reqs) auto
  obtain uid bid where r: "r = (uid, bid)" by (cases r)
  from Suc.prems reqs have n: "n \<le> length rest" by simp
  have step: "process_next_borrow (s\<lparr>borrow_requests := \<lparr>chain = reqs, count = int (length reqs)\<rparr>\<rparr>)
      = (fst (borrow_book s uid bid),
         (snd (borrow_book s uid bid))\<lparr>borrow_requests := \<lparr>chain = rest, count = int (length rest)\<rparr>\<rparr>)"
    by (simp add: process_next_borrow_def queue_bool_def dequeue_def reqs r borrow_book_queue)
  have "process_times (Suc n) (s\<lparr>borrow_requests := \<lparr>chain = reqs, count = int (length reqs)\<rparr>\<rparr>)
      = (fst (borrow_book s uid bid) # fst (borrow_each (snd (borrow_book s uid bid)) (take n rest)),
         (snd (borrow_each (snd (borrow_book s uid bid)) (take n rest)))
           \<lparr>borrow_requests := \<lparr>chain = drop n rest, count = int (length rest) - int n\<rparr>\<rparr>)"
    by (simp add: step Suc.IH[OF n])
  then show ?case
    by (simp add: reqs r case_prod_beta)
qed

text \<open>
  Claim C7. From a state whose queue is well formed, after any sequence of
  \<open>enqueue_borrow_request\<close> calls, the first \<open>n\<close> calls of \<open>process_next_borrow\<close> have
  the outcomes and the effect of \<open>borrow_book\<close> called once on each of the \<open>n\<close> oldest
  requests, in the order they were enqueued; the queue then holds the remaining requests
  in order, so that a request is attempted once and is gone whether or not its borrow
  succeeded. Once all requests are processed, a further call returns false and changes
  nothing.
\<close>

theorem process_next_borrow_fifo:
  assumes "queue_ok (borrow_requests s)"
    and "n \<le> length (chain (borrow_requests s) @ reqs)"
  shows "process_times n (enqueue_all s reqs) =
     (fst (borrow_each s (take n (chain (borrow_requests s) @ reqs))),
      (snd (borrow_each s (take n (chain (borrow_requests s) @ reqs))))
        \<lparr>borrow_requests :=
           \<lparr>chain = drop n (chain (borrow_requests s) @ reqs),
            count = int (length (chain (borrow_requests s) @ reqs)) - int n\<rparr>\<rparr>)
    \<and> (n = length (chain (borrow_requests s) @ reqs) \<longrightarrow>
         process_next_borrow (snd (process_times n (enqueue_all s reqs)))
           = (Inr False, snd (process_times n (enqueue_all s reqs))))"
proof -
  let ?all = "chain (borrow_requests s) @ reqs"
  have e: "enqueue_all s reqs = s\<lparr>borrow_requests := \<lparr>chain = ?all, count = int (length ?all)\<rparr>\<rparr>"
    using assms(1) by (simp add: enqueue_all_eq queue_ok_def)
  have p: "process_times n (enqueue_all s reqs) =
     (fst (borrow_each s (take n ?all)),
      (snd (borrow_each s (take n ?all)))
        \<lparr>borrow_requests := \<lparr>chain = drop n ?all, count = int (length ?all) - int n\<rparr>\<rparr>)"
    unfolding e by (rule process_times_queue[OF assms(2)])
  have q: "n = length ?all \<Longrightarrow>
      process_next_borrow (snd (process_times n (enqueue_all s reqs)))
        = (Inr False, snd (process_times n (enqueue_all s reqs)))"
    unfolding p by (simp add: process_next_borrow_def queue_bool_def)
  from p q show ?thesis by blast
qed

theorem process_next_borrow_fifo_witness:
  "queue_ok (borrow_requests test_setUp)
   \<and> 3 \<le> length (chain (borrow_requests test_setUp) @ [(''u1'', ''b1''), (''u2'', ''b1''), (''u2'', ''b2'')])
   \<and> fst (process_times 3
            (enqueue_all test_setUp [(''u1'', ''b1''), (''u2'', ''b1''), (''u2'', ''b2'')]))
       = [Inr True, Inr False, Inr True]"
proof -
  let ?reqs = "[(''u1'', ''b1''), (''u2'', ''b1''), (''u2'', ''b2'')]"
  have h1: "queue_ok (borrow_requests test_setUp)"
    by (simp add: test_setUp_eq queue_ok_def)
  have h2: "3 \<le> length (chain (borrow_requests test_setUp) @ ?reqs)"
    by simp
  have c: "chain (borrow_requests test_setUp) = []"
    by (simp add: test_setUp_eq)
  have b: "fst (borrow_each test_setUp ?reqs) = [Inr True, Inr False, Inr True]"
    by (simp add: borrow_test_u1_b1 borrow_book_def can_borrow_def borrow_one_def borrow_def
          test_setUp_eq test_b1_def test_b2_def test_u2_def case_prod_beta)
  from process_next_borrow_fifo[OF h1 h2]
  have "fst (process_times 3 (enqueue_all test_setUp ?reqs))
          = fst (borrow_each test_setUp (take 3 (chain (borrow_requests test_setUp) @ ?reqs)))"
    by (metis fst_conv)
  with c b have "fst (process_times 3 (enqueue_all test_setUp ?reqs))
                   = [Inr True, Inr False, Inr True]"
    by simp
  with h1 h2 show ?thesis by blast
qed

section \<open>Reachable states\<close>

text \<open>The operations of \<open>Graph\<close> keep every neighbour a key of the adjacency
  dictionary.\<close>

lemma graph_closed_empty: "graph_closed []"
  by (simp add: graph_closed_def)

lemma graph_closed_add_node:
  assumes "graph_closed g"
  shows "graph_closed (add_node g node)"
  using assms unfolding graph_closed_def
  by (auto simp: map_of_add_node split: if_splits)

lemma graph_closed_add_edge:
  assumes "graph_closed g"
  shows "graph_closed (add_edge g a b)"
proof (cases "a = b")
  case True
  with assms show ?thesis by (simp add: add_edge_def)
next
  case False
  have c: "map_of (add_edge g a b) x \<noteq> None" if "x = a \<or> x = b \<or> map_of g x \<noteq> None" for x
    using contains_add_edge[OF False, of g x] that unfolding contains_def by blast
  show ?thesis
    unfolding graph_closed_def
  proof (intro allI impI)
    fix n ns m
    assume "map_of (add_edge g a b) n = Some ns" and "m \<in> set ns"
    then have "m \<in> set (neighbors (add_edge g a b) n)"
      by (simp add: neighbors_def)
    then have "m = a \<or> m = b \<or> m \<in> set (neighbors g n)"
      by (auto simp: neighbors_add_edge[OF False] split: if_splits)
    then show "map_of (add_edge g a b) m \<noteq> None"
    proof (elim disjE)
      assume "m \<in> set (neighbors g n)"
      then obtain ns' where "map_of g n = Some ns'" "m \<in> set ns'"
        by (cases "map_of g n") (auto simp: neighbors_def)
      with assms have "map_of g m \<noteq> None" unfolding graph_closed_def by blast
      then show ?thesis by (intro c) blast
    next
      assume "m = a"
      then show ?thesis by (intro c) simp
    next
      assume "m = b"
      then show ?thesis by (intro c) simp
    qed
  qed
qed

text \<open>In every state that the public operations reach from the empty catalog, the queue
  counts its nodes and every neighbour in the interaction graph is a key.\<close>

lemma borrow_book_graph_closed:
  "graph_closed (user_book_graph s) \<Longrightarrow> graph_closed (user_book_graph (snd (borrow_book s uid bid)))"
  by (auto simp: borrow_book_def intro: graph_closed_add_edge split: option.splits sum.splits)

lemma exec_queue_ok:
  assumes "queue_ok (borrow_requests s)"
  shows "queue_ok (borrow_requests (exec s c))"
proof (cases c)
  case (AddBook b)
  with assms show ?thesis by (simp add: add_book_def split: option.splits)
next
  case (RemoveBook bid)
  with assms show ?thesis by (simp add: remove_book_def)
next
  case (UpdateBook bid updates)
  with assms show ?thesis by (simp add: update_book_def split: option.splits prod.splits)
next
  case (AddUser u)
  with assms show ?thesis by (simp add: add_user_def)
next
  case (BorrowBook uid bid)
  with assms show ?thesis by (simp add: borrow_book_keeps_queue)
next
  case (ReturnBook uid bid)
  with assms show ?thesis by (simp add: return_book_def split: option.splits sum.splits)
next
  case (EnqueueBorrowRequest uid bid)
  with assms show ?thesis by (simp add: enqueue_borrow_request_def enqueue_def queue_ok_def)
next
  case ProcessNextBorrow
  with assms show ?thesis
    by (auto simp: process_next_borrow_def dequeue_def borrow_book_keeps_queue queue_ok_def
          split: list.splits)
qed

lemma exec_graph_closed:
  assumes "graph_closed (user_book_graph s)"
  shows "graph_closed (user_book_graph (exec s c))"
proof (cases c)
  case (AddBook b)
  with assms show ?thesis by (auto simp: add_book_def intro: graph_closed_add_node split: option.splits)
next
  case (RemoveBook bid)
  with assms show ?thesis by (simp add: remove_book_def)
next
  case (UpdateBook bid updates)
  with assms show ?thesis by (simp add: update_book_def split: option.splits prod.splits)
next
  case (AddUser u)
  with assms show ?thesis by (auto simp: add_user_def intro: graph_closed_add_node)
next
  case (BorrowBook uid bid)
  with assms show ?thesis by (simp add: borrow_book_graph_closed)
next
  case (ReturnBook uid bid)
  with assms show ?thesis by (simp add: return_book_def split: option.splits sum.splits)
next
  case (EnqueueBorrowRequest uid bid)
  with assms show ?thesis by (simp add: enqueue_borrow_request_def)
next
  case ProcessNextBorrow
  with assms show ?thesis
    by (auto simp: process_next_borrow_def dequeue_def borrow_book_graph_closed
          split: list.splits)
qed

lemma run_preserves:
  assumes "\<And>s c. P s \<Longrightarrow> P (exec s c)" and "P s"
  shows "P (run s ops)"
  using assms(2) unfolding run_def
  by (induction ops arbitrary: s) (simp_all add: assms(1))

lemma reachable_queue_ok: "queue_ok (borrow_requests (run new_library ops))"
proof (rule run_preserves[where P = "\<lambda>s. queue_ok (borrow_requests s)"])
  show "queue_ok (borrow_requests (exec s c))" if "queue_ok (borrow_requests s)" for s c
    using that by (rule exec_queue_ok)
  show "queue_ok (borrow_requests new_library)"
    by (simp add: new_library_def new_queue_def queue_ok_def)
qed

lemma reachable_graph_closed: "graph_closed (user_book_graph (run new_library ops))"
proof (rule run_preserves[where P = "\<lambda>s. graph_closed (user_book_graph s)"])
  show "graph_closed (user_book_graph (exec s c))" if "graph_closed (user_book_graph s)" for s c
    using that by (rule exec_graph_closed)
  show "graph_closed (user_book_graph new_library)"
    by (simp add: new_library_def graph_closed_empty)
qed

section \<open>Breadth-first traversal\<close>

lemma hops_Suc_cases:
  assumes "hops g a (Suc k) c"
  shows "\<exists>b. hops g a k b \<and> c \<in> set (neighbors g b)"
  using assms by (cases rule: hops.cases) auto

lemma hops_0_iff: "hops g a 0 b \<longleftrightarrow> b = a"
  by (auto elim: hops.cases intro: hops_0)

lemma distance_unique: "distance g a b k \<Longrightarrow> distance g a b k' \<Longrightarrow> k = k'"
  unfolding distance_def by (meson linorder_neqE_nat)

lemma distance_le: "distance g a b k \<Longrightarrow> hops g a j b \<Longrightarrow> k \<le> j"
  unfolding distance_def by (meson not_le)

text \<open>Every node within \<open>B\<close> hops is in the queue, once the neighbours of all queued nodes of
  depth below \<open>B\<close> are.\<close>

lemma reach_in_queue:
  assumes entries: "\<forall>n d. (n, d) \<in> set Q \<longrightarrow> 0 \<le> d \<and> distance g start n (nat d)"
    and start: "(start, 0) \<in> set Q"
    and expanded: "\<forall>p dp. (p, dp) \<in> set Q \<longrightarrow> dp < B \<longrightarrow> set (neighbors g p) \<subseteq> fst ` set Q"
    and "hops g start j n" and "int j \<le> B"
  shows "n \<in> fst ` set Q"
  using assms(4,5)
proof (induction j arbitrary: n)
  case 0
  then have "n = start" by (simp add: hops_0_iff)
  with start show ?case by force
next
  case (Suc j)
  from hops_Suc_cases[OF Suc.prems(1)] obtain p
    where p: "hops g start j p" "n \<in> set (neighbors g p)" by blast
  from Suc.prems(2) have "int j \<le> B" by simp
  from Suc.IH[OF p(1) this] obtain dp where dp: "(p, dp) \<in> set Q" by force
  with entries have "0 \<le> dp" "distance g start p (nat dp)" by blast+
  with distance_le[OF _ p(1)] have "dp \<le> int j" by fastforce
  with Suc.prems(2) have "dp < B" by simp
  with expanded dp p(2) show ?case by blast
qed

lemma sorted_before:
  assumes "sorted (map snd Q)" and "i < length Q" and "(p, dp) \<in> set Q" and "dp < snd (Q ! i)"
  shows "(p, dp) \<in> set (take i Q)"
proof -
  from assms(3) obtain k where k: "k < length Q" "Q ! k = (p, dp)"
    by (auto simp: in_set_conv_nth)
  have "k < i"
  proof (rule ccontr)
    assume "\<not> k < i"
    then have "i \<le> k" by simp
    with assms(1) k(1) have "map snd Q ! i \<le> map snd Q ! k"
      by (intro sorted_nth_mono) simp_all
    with assms(2,4) k show False by simp
  qed
  with k show ?thesis
    by (metis in_set_conv_nth length_take min_less_iff_conj nth_take)
qed

lemma bfs_inv_init:
  assumes "map_of g start \<noteq> None" and "0 \<le> md"
  shows "bfs_inv g md start 0 {start} [(start, 0)] []"
  using assms by (simp add: bfs_inv_def distance_def hops_0)

lemma bfs_inv_skip:
  assumes inv: "bfs_inv g md start i V Q ord" and i: "i < length Q"
    and q: "Q ! i = (node, depth)" and d: "md \<le> depth"
  shows "bfs_inv g md start (i + 1) V Q (ord @ [(node, depth)])"
proof -
  from inv have ord: "ord = take i Q" and V: "V = fst ` set Q" and dist: "distinct (map fst Q)"
    and srt: "sorted (map snd Q)" and ne: "Q \<noteq> []" "hd Q = (start, 0)"
    and ent: "\<forall>n d. (n, d) \<in> set Q \<longrightarrow>
            0 \<le> d \<and> d \<le> md \<and> distance g start n (nat d) \<and> map_of g n \<noteq> None"
    and exp: "\<forall>n d. (n, d) \<in> set (take i Q) \<longrightarrow> d < md \<longrightarrow> set (neighbors g n) \<subseteq> fst ` set Q"
    by (simp_all add: bfs_inv_def)
  have t: "take (i + 1) Q = take i Q @ [(node, depth)]"
    using i q by (simp add: take_Suc_conv_app_nth)
  have spread: "i + 1 < length Q \<longrightarrow> (\<forall>n d'. (n, d') \<in> set Q \<longrightarrow> d' \<le> snd (Q ! (i + 1)) + 1)"
  proof (intro impI allI)
    fix n d' assume a: "i + 1 < length Q" "(n, d') \<in> set Q"
    from srt a(1) have "map snd Q ! i \<le> map snd Q ! (i + 1)"
      by (intro sorted_nth_mono) simp_all
    with a(1) q have "depth \<le> snd (Q ! (i + 1))" by simp
    moreover from ent a(2) have "d' \<le> md" by blast
    ultimately show "d' \<le> snd (Q ! (i + 1)) + 1" using d by linarith
  qed
  have exp': "\<forall>n d'. (n, d') \<in> set (take (i + 1) Q) \<longrightarrow> d' < md
                \<longrightarrow> set (neighbors g n) \<subseteq> fst ` set Q"
    using exp d unfolding t by auto
  show ?thesis
    unfolding bfs_inv_def
    using i ord V dist srt ne ent spread exp' t by simp
qed

lemma sorted_map_const: "sorted (map (\<lambda>x. c) xs)"
  by (induction xs) auto

lemma bfs_inv_expand:
  assumes inv: "bfs_inv g md start i V Q ord" and i: "i < length Q"
    and q: "Q ! i = (node, depth)" and d: "depth < md"
    and ns: "map_of g node = Some ns"
    and closed: "\<forall>m \<in> set ns. map_of g m \<noteq> None"
  shows "bfs_inv g md start (i + 1) (V \<union> set ns)
           (Q @ map (\<lambda>n. (n, depth + 1)) (fresh V ns)) (ord @ [(node, depth)])"
proof -
  let ?F = "fresh V ns"
  let ?Q = "Q @ map (\<lambda>n. (n, depth + 1)) ?F"
  from inv have ord: "ord = take i Q" and V: "V = fst ` set Q" and dist: "distinct (map fst Q)"
    and srt: "sorted (map snd Q)" and ne: "Q \<noteq> []" "hd Q = (start, 0)"
    and ent: "\<forall>n d. (n, d) \<in> set Q \<longrightarrow>
            0 \<le> d \<and> d \<le> md \<and> distance g start n (nat d) \<and> map_of g n \<noteq> None"
    and spread: "\<forall>n d. (n, d) \<in> set Q \<longrightarrow> d \<le> snd (Q ! i) + 1"
    and exp: "\<forall>n d. (n, d) \<in> set (take i Q) \<longrightarrow> d < md \<longrightarrow> set (neighbors g n) \<subseteq> fst ` set Q"
    using i by (simp_all add: bfs_inv_def)
  have nd: "(node, depth) \<in> set Q" using i q by (metis nth_mem)
  with ent have depth0: "0 \<le> depth" and nd_dist: "distance g start node (nat depth)" by blast+
  have nbrs: "neighbors g node = ns" by (simp add: neighbors_def ns)
  have start_in: "(start, 0) \<in> set Q" using ne by (metis hd_in_set)
  have setF: "set ?F = set ns - V" by (rule set_fresh)
  have t: "take (i + 1) ?Q = take i Q @ [(node, depth)]"
    using i q by (simp add: take_Suc_conv_app_nth)
  have 1: "i + 1 \<le> length ?Q" using i by simp
  have 2: "ord @ [(node, depth)] = take (i + 1) ?Q" by (simp only: t ord)
  have 3: "V \<union> set ns = fst ` set ?Q"
    using V setF by (auto simp: image_Un image_image)
  have 4: "distinct (map fst ?Q)"
    using dist distinct_fresh[of V ns] setF V by (auto simp: comp_def)
  have 5: "sorted (map snd ?Q)"
    using srt spread q by (auto simp: sorted_append comp_def sorted_map_const)
  have 6: "?Q \<noteq> []" "hd ?Q = (start, 0)" using ne by simp_all
  have near: "n \<in> V" if "hops g start j n" "int j \<le> depth" for j n
  proof -
    have "\<forall>p dp. (p, dp) \<in> set Q \<longrightarrow> dp < depth \<longrightarrow> set (neighbors g p) \<subseteq> fst ` set Q"
    proof (intro allI impI)
      fix p dp assume a: "(p, dp) \<in> set Q" "dp < depth"
      with q have "dp < snd (Q ! i)" by simp
      from sorted_before[OF srt i a(1) this] have "(p, dp) \<in> set (take i Q)" .
      moreover from a(2) d have "dp < md" by simp
      ultimately show "set (neighbors g p) \<subseteq> fst ` set Q" using exp by blast
    qed
    from reach_in_queue[OF _ start_in this that] ent show ?thesis unfolding V by blast
  qed
  have new: "0 \<le> depth + 1 \<and> depth + 1 \<le> md \<and> distance g start c (nat (depth + 1))
             \<and> map_of g c \<noteq> None" if c: "c \<in> set ?F" for c
  proof -
    from c setF have cns: "c \<in> set ns" and cV: "c \<notin> V" by auto
    have n: "nat (depth + 1) = Suc (nat depth)" using depth0 by simp
    from nd_dist have "hops g start (nat depth) node" by (simp add: distance_def)
    with cns nbrs have h: "hops g start (Suc (nat depth)) c" by (auto intro: hops_Suc)
    have "\<not> hops g start j c" if "j < Suc (nat depth)" for j
    proof
      assume "hops g start j c"
      moreover from that depth0 have "int j \<le> depth" by simp
      ultimately have "c \<in> V" by (rule near)
      with cV show False by simp
    qed
    with h have "distance g start c (Suc (nat depth))" by (simp add: distance_def)
    with n depth0 d closed cns show ?thesis by simp
  qed
  have 7: "\<forall>n d'. (n, d') \<in> set ?Q \<longrightarrow>
            0 \<le> d' \<and> d' \<le> md \<and> distance g start n (nat d') \<and> map_of g n \<noteq> None"
    using ent new by auto
  have 8: "i + 1 < length ?Q \<longrightarrow> (\<forall>n d'. (n, d') \<in> set ?Q \<longrightarrow> d' \<le> snd (?Q ! (i + 1)) + 1)"
  proof (intro impI allI)
    fix n d' assume a: "i + 1 < length ?Q" "(n, d') \<in> set ?Q"
    from 5 a(1) have "map snd ?Q ! i \<le> map snd ?Q ! (i + 1)"
      by (intro sorted_nth_mono) simp_all
    moreover have "map snd ?Q ! i = depth" using i q by (simp add: nth_append)
    moreover have "map snd ?Q ! (i + 1) = snd (?Q ! (i + 1))" using a(1) by (intro nth_map)
    ultimately have "depth \<le> snd (?Q ! (i + 1))" by simp
    moreover from a(2) spread q have "d' \<le> depth + 1" by auto
    ultimately show "d' \<le> snd (?Q ! (i + 1)) + 1" by linarith
  qed
  have 9: "\<forall>n d'. (n, d') \<in> set (take (i + 1) ?Q) \<longrightarrow> d' < md
                \<longrightarrow> set (neighbors g n) \<subseteq> fst ` set ?Q"
  proof (intro allI impI)
    fix n d' assume a: "(n, d') \<in> set (take (i + 1) ?Q)" "d' < md"
    from a(1) have "(n, d') \<in> set (take i Q) \<or> (n, d') = (node, depth)" unfolding t by auto
    then show "set (neighbors g n) \<subseteq> fst ` set ?Q"
    proof
      assume "(n, d') \<in> set (take i Q)"
      with exp a(2) have "set (neighbors g n) \<subseteq> fst ` set Q" by blast
      then show ?thesis by auto
    next
      assume "(n, d') = (node, depth)"
      with nbrs have "set (neighbors g n) = set ns" by simp
      with 3 show ?thesis by auto
    qed
  qed
  show ?thesis
    unfolding bfs_inv_def
    using 1 2 3 4 5 6 7 8 9 by blast
qed

lemma bfs_while_inv:
  assumes "bfs_inv g md start i V Q ord"
    and "\<forall>n ns m. map_of g n = Some ns \<longrightarrow> m \<in> set ns \<longrightarrow> map_of g m \<noteq> None"
  shows "\<exists>Q'. bfs_while g md i V Q ord = Inr Q'
              \<and> bfs_inv g md start (length Q') (fst ` set Q') Q' Q'"
  using assms
proof (induction g md i V Q ord rule: bfs_while.induct)
  case (1 g max_depth i visited queue order)
  note inv = "1.prems"(1) and closed = "1.prems"(2)
  show ?case
  proof (cases "i < length queue")
    case False
    with inv have "i = length queue" "order = queue" "visited = fst ` set queue"
      by (simp_all add: bfs_inv_def)
    moreover from False have "bfs_while g max_depth i visited queue order = Inr order"
      by (simp add: bfs_while.simps[of g max_depth i visited queue order])
    ultimately show ?thesis using inv by simp
  next
    case True
    obtain node depth where q: "queue ! i = (node, depth)" by (cases "queue ! i")
    show ?thesis
    proof (cases "max_depth \<le> depth")
      case skip: True
      from bfs_inv_skip[OF inv True q skip]
      have "bfs_inv g max_depth start (i + 1) visited queue (order @ [(node, depth)])" .
      from "1.IH"(1)[OF True q[symmetric] skip this closed]
      show ?thesis
        using True q skip by (simp add: bfs_while.simps[of g max_depth i visited queue order])
    next
      case expand: False
      from inv True q have "map_of g node \<noteq> None"
        unfolding bfs_inv_def by (metis nth_mem)
      then obtain ns where ns: "map_of g node = Some ns" by blast
      with closed have c: "\<forall>m \<in> set ns. map_of g m \<noteq> None" by blast
      let ?V = "visited \<union> set ns"
      let ?Q = "queue @ map (\<lambda>n. (n, depth + 1)) (fresh visited ns)"
      from expand have d: "depth < max_depth" by simp
      from bfs_inv_expand[OF inv True q d ns c]
      have inv': "bfs_inv g max_depth start (i + 1) ?V ?Q (order @ [(node, depth)])" .
      have r: "(?V, ?Q) = bfs_for depth ns (visited, queue)" by (simp add: bfs_for_eq)
      from "1.IH"(2)[OF True q[symmetric] expand ns r inv' closed]
      show ?thesis
        using True q expand ns
        by (simp add: bfs_while.simps[of g max_depth i visited queue order] bfs_for_eq)
    qed
  qed
qed

text \<open>
  Claim C6. For every graph in which every neighbour is a key of the adjacency dictionary
  (as the \<open>Graph\<close> class keeps it), whatever the order in which its adjacency sets
  iterate, and every \<open>max_depth \<ge> 0\<close>,
  \<open>bfs(start, max_depth)\<close> returns a list in which no node occurs twice, whose pairs are
  exactly the nodes reachable from \<open>start\<close> by at most \<open>max_depth\<close> edges, each with its
  least number of edges from \<open>start\<close>, and whose depths are non-decreasing; when \<open>start\<close>
  is a node of the graph the list begins with \<open>(start, 0)\<close>, and when it is not the list is
  empty. The call returns: it neither loops nor raises.
\<close>

theorem bfs_spec:
  assumes "graph_closed g" and "0 \<le> max_depth"
  shows "\<exists>res. bfs g start max_depth = Inr res
       \<and> distinct (map fst res)
       \<and> (\<forall>n d. (n, d) \<in> set res \<longleftrightarrow>
             contains g start \<and> 0 \<le> d \<and> d \<le> max_depth \<and> distance g start n (nat d))
       \<and> sorted (map snd res)
       \<and> (contains g start \<longrightarrow> res \<noteq> [] \<and> hd res = (start, 0))
       \<and> (\<not> contains g start \<longrightarrow> res = [])"
proof (cases "map_of g start = None")
  case True
  then show ?thesis by (simp add: bfs_def contains_def)
next
  case False
  have closed: "\<forall>n ns m. map_of g n = Some ns \<longrightarrow> m \<in> set ns \<longrightarrow> map_of g m \<noteq> None"
    using assms(1) unfolding graph_closed_def by blast
  from bfs_while_inv[OF bfs_inv_init[OF False assms(2)] closed]
  obtain Q where run: "bfs_while g max_depth 0 {start} [(start, 0)] [] = Inr Q"
    and inv: "bfs_inv g max_depth start (length Q) (fst ` set Q) Q Q" by blast
  from inv have dist: "distinct (map fst Q)"
    and srt: "sorted (map snd Q)" and ne: "Q \<noteq> []" "hd Q = (start, 0)"
    and ent: "\<forall>n d. (n, d) \<in> set Q \<longrightarrow>
            0 \<le> d \<and> d \<le> max_depth \<and> distance g start n (nat d) \<and> map_of g n \<noteq> None"
    and exp: "\<forall>n d. (n, d) \<in> set Q \<longrightarrow> d < max_depth \<longrightarrow> set (neighbors g n) \<subseteq> fst ` set Q"
    by (simp_all add: bfs_inv_def)
  have start_in: "(start, 0) \<in> set Q" using ne by (metis hd_in_set)
  have complete: "(n, d) \<in> set Q"
    if a: "0 \<le> d" "d \<le> max_depth" "distance g start n (nat d)" for n d
  proof -
    from a(3) have h: "hops g start (nat d) n" by (simp add: distance_def)
    from a(1,2) have "int (nat d) \<le> max_depth" by simp
    from reach_in_queue[OF _ start_in exp h this] ent
    obtain d' where d': "(n, d') \<in> set Q" by force
    with ent have "0 \<le> d'" "distance g start n (nat d')" by blast+
    with distance_unique[OF a(3)] a(1) have "d' = d" by fastforce
    with d' show ?thesis by simp
  qed
  have iff: "\<forall>n d. (n, d) \<in> set Q \<longleftrightarrow>
             contains g start \<and> 0 \<le> d \<and> d \<le> max_depth \<and> distance g start n (nat d)"
    using ent complete False by (auto simp: contains_def)
  have b: "bfs g start max_depth = Inr Q" using run by (simp add: bfs_def False)
  from b dist iff srt ne False show ?thesis by (simp add: contains_def)
qed

theorem bfs_spec_witness:
  "(0::int) \<le> 2
   \<and> (\<exists>res. bfs test_graph ''a'' 2 = Inr res \<and> distinct (map fst res)
          \<and> sorted (map snd res) \<and> res \<noteq> [] \<and> hd res = (''a'', 0))"
proof -
  have h1: "graph_closed test_graph"
    unfolding graph_closed_def test_graph_def by (auto split: if_splits)
  have h2: "(0::int) \<le> 2" by simp
  have h3: "contains test_graph ''a''"
    by (simp add: test_graph_def contains_def)
  from bfs_spec[OF h1 h2, of "''a''"] h3 h2 show ?thesis by blast
qed

section \<open>Recommendations\<close>

lemma test_two_tech_eq:
  "test_two_tech =
     \<lparr>books = [(''b1'', test_b1), (''b3'', test_b3)],
      users = [(''u1'', test_u1)],
      borrow_requests = \<lparr>chain = [], count = 0\<rparr>,
      user_book_graph = [(''book:b1'', []), (''book:b3'', []), (''user:u1'', [])]\<rparr>"
  by (simp add: test_two_tech_def fixture_defs)

lemma bfs_test_two_tech:
  "bfs [(''book:b1'', []), (''book:b3'', []), (''user:u1'', [])] ''user:u1'' 3
     = Inr [(''user:u1'', 0)]"
  by (simp add: bfs_def bfs_while.simps)

text \<open>What the slice does give: nothing for \<open>k = 0\<close>, and nothing for an unknown user;
  and \<open>top_k_books\<close> returns the empty list for every \<open>k \<le> 0\<close>.\<close>

lemma recommend_unknown_user:
  "map_of (users s) uid = None \<Longrightarrow> recommend_for_user s uid k = Inr []"
  by (simp add: recommend_for_user_def)

lemma recommend_zero:
  "recommend_for_user s uid 0 = Inr [] \<or> (\<exists>e. recommend_for_user s uid 0 = Inl e)"
  by (simp add: recommend_for_user_def slice_to_def Let_def split: option.splits sum.splits)

lemma top_k_books_nonpositive: "k \<le> 0 \<Longrightarrow> top_k_books nlargest s k = []"
  by (simp add: top_k_books_def)

text \<open>
  Claim C8 says that \<open>recommend(user_id, k)\<close> returns the empty list for every known
  user and every \<open>k \<le> 0\<close>. The code returns \<open>ranked[:k]\<close>, which for a negative \<open>k\<close> drops
  the last \<open>-k\<close> entries instead of all of them: with two candidate books and \<open>k = -1\<close>
  the first one is returned.
\<close>

theorem recommend_negative_k:
  "map_of (users test_two_tech) ''u1'' = Some test_u1
   \<and> recommend_for_user test_two_tech ''u1'' (- 1) = Inr [(test_b1, 7 / 10)]"
  by (simp add: test_two_tech_eq recommend_for_user_def bfs_test_two_tech
        test_b1_def test_b3_def test_u1_def lower_def lower_char_def
        sorted_rank_def rank_key_def slice_to_def Let_def)

end
